theory Spec2Isabelle
  imports Main "HOL-Library.Word" "HOL-Library.Multiset"
begin

section \<open>Geometry helpers of \<open>src/App.tsx\<close>\<close>

text \<open>
  \<^verbatim>\<open>interface Point { x: number; y: number; }\<close>
  A \<^verbatim>\<open>number\<close> is an IEEE 754 double. The only caller, \<^verbatim>\<open>detectMotion\<close>, builds every
  point from a pixel index of the \<open>64 \<times> 48\<close> frame, so the coordinates are integers
  and are modelled by \<open>int\<close>.
\<close>

record Point =
  x :: int
  y :: int

text \<open>
  The arithmetic of \<open>int\<close> is the arithmetic of the source only where the doubles are
  exact. With both coordinates of every point at most \<open>2 ^ 25 = 33554432\<close> in absolute
  value, a difference of coordinates is at most \<open>2 ^ 26\<close>, a product of two differences at
  most \<open>2 ^ 52\<close> and the difference of two such products at most \<open>2 ^ 53\<close>: all are integers
  that a double represents, so no operation of \<^verbatim>\<open>cross\<close> or of the comparator rounds. Beyond
  that range the source rounds and the definitions below say nothing about it; every
  property of \<open>cross\<close>, of the sort and of \<open>getConvexHull\<close> that is claimed of the
  program is stated for points in this range. The points of a frame are far inside it.
\<close>

definition inExactRange :: "Point \<Rightarrow> bool" where
  "inExactRange p \<longleftrightarrow> \<bar>x p\<bar> \<le> 33554432 \<and> \<bar>y p\<bar> \<le> 33554432"

text \<open>
  \<^verbatim>\<open>const cross = (o, a, b) => (a.x - o.x) * (b.y - o.y) - (a.y - o.y) * (b.x - o.x);\<close>
  The value of the source for three points that satisfy \<open>inExactRange\<close>.
\<close>

definition cross :: "Point \<Rightarrow> Point \<Rightarrow> Point \<Rightarrow> int" where
  "cross o' a b = (x a - x o') * (y b - y o') - (y a - y o') * (x b - x o')"

text \<open>
  The comparator handed to \<^verbatim>\<open>points.sort\<close>:
  \<^verbatim>\<open>(a, b) => a.x === b.x ? a.y - b.y : a.x - b.x\<close>
\<close>

definition cmp :: "Point \<Rightarrow> Point \<Rightarrow> int" where
  "cmp a b = (if x a = x b then y a - y b else x a - x b)"

text \<open>
  \<^verbatim>\<open>Array.prototype.sort\<close> with a consistent comparator returns the stably sorted
  permutation of the array. Two points that compare equal under \<open>cmp\<close> have the same
  coordinates, so every sorting algorithm yields the same list of values; it is modelled
  by a stable insertion sort driven by the comparator of the source.
\<close>

fun insort_cmp :: "Point \<Rightarrow> Point list \<Rightarrow> Point list" where
  "insort_cmp p [] = [p]"
| "insort_cmp p (q # qs) = (if cmp p q \<le> 0 then p # q # qs else q # insort_cmp p qs)"

definition sort_points :: "Point list \<Rightarrow> Point list" where
  "sort_points ps = foldr insort_cmp ps []"

text \<open>
  The inner loop of both chains:
  \<^verbatim>\<open>while (st.length >= 2 && cross(st[st.length - 2], st[st.length - 1], p) <= 0) st.pop();\<close>
  The stack is the array itself: \<^verbatim>\<open>push\<close> appends at the end and \<^verbatim>\<open>pop\<close> drops the last
  element.
\<close>

function pop_while :: "Point list \<Rightarrow> Point \<Rightarrow> Point list" where
  "pop_while st p =
     (if length st \<ge> 2 \<and> cross (st ! (length st - 2)) (st ! (length st - 1)) p \<le> 0
      then pop_while (butlast st) p
      else st)"
  by pat_completeness auto
termination
  by (relation "measure (\<lambda>(st, p). length st)") auto

declare pop_while.simps [simp del]

text \<open>
  One \<^verbatim>\<open>for\<close> loop: every point in turn pops the stack and is pushed.
\<close>

fun build_chain :: "Point list \<Rightarrow> Point list \<Rightarrow> Point list" where
  "build_chain st [] = st"
| "build_chain st (p # ps) = build_chain (pop_while st p @ [p]) ps"

text \<open>
  \<^verbatim>\<open>getConvexHull\<close>. The lower chain scans the sorted points from index \<open>0\<close> upwards, the
  upper chain from index \<open>n - 1\<close> downwards; \<^verbatim>\<open>upper.pop(); lower.pop();\<close> drop the last
  element of each chain before they are concatenated. The function only compares and
  copies its input points, so on a list of points that satisfy \<open>inExactRange\<close> every
  call of \<open>cross\<close> and of the comparator is on such points, and the result is the result
  of the source.
\<close>

definition getConvexHull :: "Point list \<Rightarrow> Point list" where
  "getConvexHull points =
     (if length points \<le> 2 then points
      else let sorted_pts = sort_points points;
               lower = build_chain [] sorted_pts;
               upper = build_chain [] (rev sorted_pts)
           in butlast lower @ butlast upper)"

section \<open>Types of \<open>src/types.ts\<close>\<close>

datatype DetectionStatus = IDLE | DETECTING | ALERT

text \<open>
  \<^verbatim>\<open>interface MotionLog { id; timestamp; imageUrl; analysis?; isAnalyzing }\<close>
  The identifier is \<^verbatim>\<open>Date.now().toString()\<close>; the decimal rendering is injective, so the
  identifier is kept as the millisecond count it prints. The time stamp is the
  millisecond count of \<^verbatim>\<open>new Date()\<close>, the optional \<^verbatim>\<open>analysis\<close> is an option.
\<close>

record MotionLog =
  id' :: int
  timestamp :: int
  imageUrl :: string
  analysis :: "string option"
  isAnalyzing :: bool

record AppConfig =
  sensitivity :: int
  threshold :: int
  enableAudio :: bool
  enableAI :: bool
  cooldown :: int

definition DEFAULT_CONFIG :: AppConfig where
  "DEFAULT_CONFIG =
     \<lparr>sensitivity = 20, threshold = 150, enableAudio = True, enableAI = True, cooldown = 5\<rparr>"

definition MAX_LOGS :: nat where
  "MAX_LOGS = 20"

section \<open>State of the \<open>App\<close> component\<close>

text \<open>
  The \<^verbatim>\<open>useState\<close> cells \<^verbatim>\<open>config\<close>, \<^verbatim>\<open>status\<close>, \<^verbatim>\<open>logs\<close>, \<^verbatim>\<open>debugDiff\<close> and the refs
  \<^verbatim>\<open>lastAlertTime\<close> (initially \<open>0\<close>) and \<^verbatim>\<open>prevFrameData\<close> (initially \<^verbatim>\<open>null\<close>).
\<close>

record AppState =
  config :: AppConfig
  status :: DetectionStatus
  logs :: "MotionLog list"
  debugDiff :: nat
  lastAlertTime :: int
  prevFrameData :: "8 word list option"

definition initialState :: AppState where
  "initialState =
     \<lparr>config = DEFAULT_CONFIG, status = IDLE, logs = [], debugDiff = 0,
      lastAlertTime = 0, prevFrameData = None\<rparr>"

text \<open>
  What a handler asks of the outside world: the beep of \<^verbatim>\<open>playAlertSound\<close> and the call
  \<^verbatim>\<open>analyzeSecuritySnapshot(snapshotUrl)\<close> made on behalf of the log entry \<^verbatim>\<open>newLogId\<close>.
\<close>

datatype effect = AlertSound | AnalyzeSnapshot int string

text \<open>
  \<^verbatim>\<open>playAlertSound\<close>: \<^verbatim>\<open>if (!config.enableAudio) return;\<close> and the oscillator otherwise.
\<close>

definition playAlertSound :: "AppConfig \<Rightarrow> effect list" where
  "playAlertSound cfg = (if \<not> enableAudio cfg then [] else [AlertSound])"

section \<open>Frame comparison inside \<open>detectMotion\<close>\<close>

definition width :: nat where
  "width = 64"

definition height :: nat where
  "height = 48"

text \<open>
  Reading a \<^verbatim>\<open>Uint8ClampedArray\<close>: a byte inside the array, \<^verbatim>\<open>undefined\<close> beyond its end.
\<close>

definition channel :: "8 word list \<Rightarrow> nat \<Rightarrow> int option" where
  "channel buf i = (if i < length buf then Some (uint (buf ! i)) else None)"

text \<open>
  \<^verbatim>\<open>Math.abs(data[i] - prev[i])\<close>: arithmetic on \<^verbatim>\<open>undefined\<close> gives \<^verbatim>\<open>NaN\<close>, written \<open>None\<close>.
\<close>

definition absDiff :: "int option \<Rightarrow> int option \<Rightarrow> int option" where
  "absDiff a b = (case a of None \<Rightarrow> None
                  | Some u \<Rightarrow> (case b of None \<Rightarrow> None | Some v \<Rightarrow> Some \<bar>u - v\<bar>))"

text \<open>
  \<^verbatim>\<open>rDiff + gDiff + bDiff > config.sensitivity\<close>: a sum with a \<^verbatim>\<open>NaN\<close> in it is \<^verbatim>\<open>NaN\<close>, and
  every comparison with \<^verbatim>\<open>NaN\<close> is false.
\<close>

definition exceedsSensitivity :: "int option \<Rightarrow> int option \<Rightarrow> int option \<Rightarrow> int \<Rightarrow> bool" where
  "exceedsSensitivity rDiff gDiff bDiff sens =
     (case rDiff of None \<Rightarrow> False
      | Some r \<Rightarrow> (case gDiff of None \<Rightarrow> False
        | Some g \<Rightarrow> (case bDiff of None \<Rightarrow> False | Some b \<Rightarrow> r + g + b > sens)))"

text \<open>
  The loop \<^verbatim>\<open>for (let i = 0; i < data.length; i += 4)\<close> with the array \<^verbatim>\<open>activePixels\<close> it
  pushes to; \<^verbatim>\<open>pIdx = i / 4\<close>, \<^verbatim>\<open>x = pIdx % width\<close>, \<^verbatim>\<open>y = Math.floor(pIdx / width)\<close>.
\<close>

function comparePixels ::
  "int \<Rightarrow> 8 word list \<Rightarrow> 8 word list \<Rightarrow> nat \<Rightarrow> Point list \<Rightarrow> Point list" where
  "comparePixels sens data prev i activePixels =
     (if i < length data then
        let rDiff = absDiff (channel data i) (channel prev i);
            gDiff = absDiff (channel data (i + 1)) (channel prev (i + 1));
            bDiff = absDiff (channel data (i + 2)) (channel prev (i + 2));
            pIdx = i div 4
        in comparePixels sens data prev (i + 4)
             (if exceedsSensitivity rDiff gDiff bDiff sens
              then activePixels @ [\<lparr>x = int (pIdx mod width), y = int (pIdx div width)\<rparr>]
              else activePixels)
      else activePixels)"
  by pat_completeness auto
termination
  by (relation "measure (\<lambda>(sens, data, prev, i, activePixels). length data - i)") auto

declare comparePixels.simps [simp del]

section \<open>The alert handler \<open>handleMotionDetected\<close>\<close>

text \<open>
  The handler is a closure of the render that created it: \<open>cfg\<close> is the \<^verbatim>\<open>config\<close> of that
  render, while \<^verbatim>\<open>lastAlertTime\<close>, \<^verbatim>\<open>setStatus\<close> and \<^verbatim>\<open>setLogs\<close> act on the live state.
  The arguments \<open>now\<close>, \<open>idNow\<close> and \<open>stamp\<close> are the three clock readings of the handler
  (\<^verbatim>\<open>Date.now()\<close> at entry, \<^verbatim>\<open>Date.now()\<close> for the identifier, \<^verbatim>\<open>new Date()\<close>); \<open>video\<close> is
  \<open>None\<close> when \<^verbatim>\<open>videoRef.current\<close> is null and otherwise the data URL that the capture
  canvas returns. The handler runs synchronously up to its \<^verbatim>\<open>await\<close>: it returns the new
  state and the effects it has started.
\<close>

definition handleMotionDetected ::
  "AppConfig \<Rightarrow> int \<Rightarrow> int \<Rightarrow> int \<Rightarrow> string option \<Rightarrow> AppState
   \<Rightarrow> AppState \<times> effect list" where
  "handleMotionDetected cfg now idNow stamp video st =
     (if now - lastAlertTime st < cooldown cfg * 1000
      then (st\<lparr>status := ALERT\<rparr>, [])
      else
        let snapshotUrl = (case video of None \<Rightarrow> [] | Some url \<Rightarrow> url);
            newLogId = idNow;
            newLog = \<lparr>id' = newLogId, timestamp = stamp, imageUrl = snapshotUrl,
                      analysis = None, isAnalyzing = enableAI cfg\<rparr>
        in (st\<lparr>lastAlertTime := now, status := ALERT,
                logs := take MAX_LOGS (newLog # logs st)\<rparr>,
            playAlertSound cfg @
            (if enableAI cfg \<and> snapshotUrl \<noteq> []
             then [AnalyzeSnapshot newLogId snapshotUrl] else [])))"

text \<open>
  The continuation after \<^verbatim>\<open>await analyzeSecuritySnapshot(snapshotUrl)\<close>: the \<^verbatim>\<open>try\<close> branch
  with the description, and the \<^verbatim>\<open>catch\<close> branch.
\<close>

definition analysisResolved :: "int \<Rightarrow> string \<Rightarrow> AppState \<Rightarrow> AppState" where
  "analysisResolved newLogId description st =
     st\<lparr>logs := map (\<lambda>log. if id' log = newLogId
                            then log\<lparr>analysis := Some description, isAnalyzing := False\<rparr>
                            else log) (logs st)\<rparr>"

definition analysisRejected :: "int \<Rightarrow> AppState \<Rightarrow> AppState" where
  "analysisRejected newLogId st =
     st\<lparr>logs := map (\<lambda>log. if id' log = newLogId
                            then log\<lparr>isAnalyzing := False, analysis := Some ''Analysis unavailable.''\<rparr>
                            else log) (logs st)\<rparr>"

section \<open>One tick of \<open>detectMotion\<close>\<close>

text \<open>
  \<open>detectMotion\<close> is a closure as well: \<open>cfg\<close> is the \<^verbatim>\<open>config\<close> of the render in which the
  effect that started the interval last ran, and the handler it calls is the one of that
  render. \<open>frame\<close> is \<open>None\<close> when the tick returns early (a ref is missing, no drawing
  context, or the video is not ready) and otherwise the bytes of \<^verbatim>\<open>getImageData\<close>. The
  result is the new state, the effects started, and the hull handed to the overlay.
\<close>

definition detectMotion ::
  "AppConfig \<Rightarrow> 8 word list option \<Rightarrow> int \<Rightarrow> int \<Rightarrow> int \<Rightarrow> string option \<Rightarrow> AppState
   \<Rightarrow> AppState \<times> effect list \<times> Point list" where
  "detectMotion cfg frame now idNow stamp video st =
     (case frame of
        None \<Rightarrow> (st, [], [])
      | Some data \<Rightarrow>
          (case prevFrameData st of
             None \<Rightarrow> (st\<lparr>prevFrameData := Some data\<rparr>, [], [])
           | Some prev \<Rightarrow>
               let activePixels = comparePixels (sensitivity cfg) data prev 0 [];
                   st1 = st\<lparr>debugDiff := length activePixels\<rparr>
               in if int (length activePixels) > threshold cfg
                  then
                    let (st2, effs) = handleMotionDetected cfg now idNow stamp video st1;
                        hullPoints = getConvexHull activePixels
                    in (st2\<lparr>prevFrameData := Some data\<rparr>, effs, hullPoints)
                  else (st1\<lparr>status := IDLE, prevFrameData := Some data\<rparr>, [], [])))"

section \<open>Runs of the application\<close>

text \<open>
  The events that reach the component: a tick of the sampling loop, a change of the
  configuration, and the completion of a description request (\<open>Some\<close> text when the
  promise resolves, \<open>None\<close> when it rejects). A completion belongs to the handler
  invocation that issued the request, so it happens only for an identifier whose request
  is in flight, once per request.

  The interval is restarted, with the closures of the current render, when one of the
  dependencies \<^verbatim>\<open>config.sensitivity\<close>, \<^verbatim>\<open>config.threshold\<close>, \<^verbatim>\<open>config.cooldown\<close> of the effect
  changes; \<open>seenConfig\<close> is the configuration that the running interval has closed over.
\<close>

datatype event =
    Sample "8 word list option" int int int "string option"
  | Configure AppConfig
  | AnalysisDone int "string option"

record System =
  app :: AppState
  seenConfig :: AppConfig
  inFlight :: "int list"

fun requested :: "effect list \<Rightarrow> int list" where
  "requested [] = []"
| "requested (AlertSound # es) = requested es"
| "requested (AnalyzeSnapshot i url # es) = i # requested es"

fun step :: "System \<Rightarrow> event \<Rightarrow> System" where
  "step sys (Sample frame now idNow stamp video) =
     (let (st', effs, hull) = detectMotion (seenConfig sys) frame now idNow stamp video (app sys)
      in sys\<lparr>app := st', inFlight := inFlight sys @ requested effs\<rparr>)"
| "step sys (Configure cfg) =
     sys\<lparr>app := (app sys)\<lparr>config := cfg\<rparr>,
         seenConfig :=
           (if sensitivity cfg \<noteq> sensitivity (config (app sys))
               \<or> threshold cfg \<noteq> threshold (config (app sys))
               \<or> cooldown cfg \<noteq> cooldown (config (app sys))
            then cfg else seenConfig sys)\<rparr>"
| "step sys (AnalysisDone i res) =
     (if i \<in> set (inFlight sys)
      then sys\<lparr>app := (case res of Some description \<Rightarrow> analysisResolved i description (app sys)
                                 | None \<Rightarrow> analysisRejected i (app sys)),
               inFlight := remove1 i (inFlight sys)\<rparr>
      else sys)"

definition run :: "System \<Rightarrow> event list \<Rightarrow> System" where
  "run sys evs = foldl step sys evs"

definition initialSystem :: System where
  "initialSystem = \<lparr>app = initialState, seenConfig = DEFAULT_CONFIG, inFlight = []\<rparr>"

text \<open>
  The effects that an event starts in a system: those of the tick, run with the closures
  of the interval. A change of the configuration and a completion start none.
\<close>

fun stepEffects :: "System \<Rightarrow> event \<Rightarrow> effect list" where
  "stepEffects sys (Sample frame now idNow stamp video) =
     fst (snd (detectMotion (seenConfig sys) frame now idNow stamp video (app sys)))"
| "stepEffects sys (Configure cfg) = []"
| "stepEffects sys (AnalysisDone i res) = []"

section \<open>Notions used to state the properties\<close>

text \<open>
  The coordinate that the comparison loop computes for the pixel with index \<open>k\<close>, and the
  test it applies to the pixel that starts at byte \<open>i\<close>.
\<close>

definition pixelPoint :: "nat \<Rightarrow> Point" where
  "pixelPoint k = \<lparr>x = int (k mod width), y = int (k div width)\<rparr>"

definition pixelChanged :: "int \<Rightarrow> 8 word list \<Rightarrow> 8 word list \<Rightarrow> nat \<Rightarrow> bool" where
  "pixelChanged sens data prev i =
     exceedsSensitivity (absDiff (channel data i) (channel prev i))
       (absDiff (channel data (i + 1)) (channel prev (i + 1)))
       (absDiff (channel data (i + 2)) (channel prev (i + 2))) sens"

text \<open>
  The part of a log entry that a description update never touches.
\<close>

definition entryKey :: "MotionLog \<Rightarrow> int \<times> int \<times> string" where
  "entryKey e = (id' e, timestamp e, imageUrl e)"

text \<open>
  An identifier \<open>k\<close> is pending for good in a system when no request for it is in flight
  and every log entry that carries it is marked as being analysed and has no description.
\<close>

definition pendingForever :: "int \<Rightarrow> System \<Rightarrow> bool" where
  "pendingForever k sys \<longleftrightarrow>
     k \<notin> set (inFlight sys) \<and>
     list_all (\<lambda>e. id' e = k \<longrightarrow> isAnalyzing e \<and> analysis e = None) (logs (app sys))"

text \<open>
  Log identifiers are clock readings: a later tick does not read the identifier \<open>k\<close> again.
\<close>

fun otherId :: "int \<Rightarrow> event \<Rightarrow> bool" where
  "otherId k (Sample frame now idNow stamp video) = (idNow \<noteq> k)"
| "otherId k (Configure cfg) = True"
| "otherId k (AnalysisDone i res) = True"

text \<open>
  Example data: a log entry, a state whose log is full, a black and a white frame of the
  capture size, and two one-pixel frames.
\<close>

definition exampleEntry :: "int \<Rightarrow> MotionLog" where
  "exampleEntry i =
     \<lparr>id' = i, timestamp = i, imageUrl = ''data:,'', analysis = None, isAnalyzing = False\<rparr>"

definition fullState :: AppState where
  "fullState = initialState\<lparr>logs := map exampleEntry [20, 19, 18, 17, 16, 15, 14, 13, 12, 11,
                                                       10, 9, 8, 7, 6, 5, 4, 3, 2, 1],
                             lastAlertTime := 20\<rparr>"

definition blackFrame :: "8 word list" where
  "blackFrame = replicate (4 * width * height) 0"

definition whiteFrame :: "8 word list" where
  "whiteFrame = replicate (4 * width * height) 255"

definition darkPixel :: "8 word list" where
  "darkPixel = [0, 0, 0, 255]"

definition redPixel :: "8 word list" where
  "redPixel = [255, 0, 0, 255]"

text \<open>
  A run in which the user switches both side effects off while the sampling loop is
  running: one tick on a black frame, then the audio toggle, then the AI toggle. Neither
  toggle touches \<^verbatim>\<open>sensitivity\<close>, \<^verbatim>\<open>threshold\<close> or \<^verbatim>\<open>cooldown\<close>.
\<close>

definition flagsOffRun :: "event list" where
  "flagsOffRun =
     [Sample (Some blackFrame) 1700000000000 1700000000000 1700000000000
        (Some ''data:image/jpeg;base64,AA''),
      Configure (DEFAULT_CONFIG\<lparr>enableAudio := False\<rparr>),
      Configure (DEFAULT_CONFIG\<lparr>enableAudio := False, enableAI := False\<rparr>)]"

text \<open>
  A closed polygon winds counter-clockwise when every vertex with its two successors
  (cyclically) makes a strict left turn, which \<open>cross\<close> reports as a positive value.
\<close>

definition counterClockwise :: "Point list \<Rightarrow> bool" where
  "counterClockwise hs =
     list_all (\<lambda>i. cross (hs ! i) (hs ! ((i + 1) mod length hs)) (hs ! ((i + 2) mod length hs)) > 0)
       [0..<length hs]"

text \<open>
  The point \<open>centre + a * d + b * d'\<close> where \<open>d = (u, v)\<close> is the half diagonal of a square
  and \<open>d' = (- v, u)\<close> is \<open>d\<close> turned by a quarter: the corners of the square are the
  points with \<open>(a, b)\<close> among \<open>(1, 0)\<close>, \<open>(0, 1)\<close>, \<open>(- 1, 0)\<close>, \<open>(0, - 1)\<close>.
\<close>

definition squarePoint :: "int \<Rightarrow> int \<Rightarrow> int \<Rightarrow> int \<Rightarrow> int \<Rightarrow> int \<Rightarrow> Point" where
  "squarePoint cx cy u v a b = \<lparr>x = cx + a * u - b * v, y = cy + a * v + b * u\<rparr>"

text \<open>
  A vector \<open>(a, b)\<close> is positive in the order of the sort when it points to the right,
  or straight up.
\<close>

definition lexpos :: "int \<Rightarrow> int \<Rightarrow> bool" where
  "lexpos a b \<longleftrightarrow> 0 < a \<or> (a = 0 \<and> 0 < b)"

text \<open>
  A point of \<open>X\<close> is a vertex of the lower hull of \<open>X\<close> when it lies strictly below
  (to the right of) every segment between a point of \<open>X\<close> before it and a point of \<open>X\<close>
  after it, in the order of the sort; for the upper hull the plane is turned by half a
  turn.
\<close>

definition lowerVertex :: "Point set \<Rightarrow> Point \<Rightarrow> bool" where
  "lowerVertex X p \<longleftrightarrow>
     p \<in> X \<and> (\<forall>a \<in> X. \<forall>b \<in> X. cmp a p < 0 \<and> cmp p b < 0 \<longrightarrow> cross a b p < 0)"

definition reflectPoint :: "Point \<Rightarrow> Point" where
  "reflectPoint p = \<lparr>x = - x p, y = - y p\<rparr>"

definition upperVertex :: "Point set \<Rightarrow> Point \<Rightarrow> bool" where
  "upperVertex X p \<longleftrightarrow> lowerVertex (reflectPoint ` X) (reflectPoint p)"

definition hullVertices :: "Point set \<Rightarrow> Point set" where
  "hullVertices X = {p. lowerVertex X p} \<union> {p. upperVertex X p}"

text \<open>
  The invariant of one chain loop: after the points \<open>X\<close> have been scanned the stack is
  strictly increasing, runs from the least to the greatest point of \<open>X\<close>, has all of
  \<open>X\<close> on the left of each of its edges, and holds exactly the lower vertices of \<open>X\<close>.
  While all scanned points are equal the stack holds that point once or twice.
\<close>

definition chainInv :: "Point list \<Rightarrow> Point set \<Rightarrow> bool" where
  "chainInv st X \<longleftrightarrow>
     st \<noteq> [] \<and> sorted_wrt (\<lambda>a b. cmp a b < 0) st \<and>
     (\<forall>z \<in> X. cmp (hd st) z \<le> 0 \<and> cmp z (last st) \<le> 0) \<and>
     cmp (hd st) (last st) < 0 \<and>
     successively (\<lambda>a b. \<forall>z \<in> X. 0 \<le> cross a b z) st \<and>
     set st = {p. lowerVertex X p}"

definition chainState :: "Point list \<Rightarrow> Point set \<Rightarrow> bool" where
  "chainState st X \<longleftrightarrow> (\<exists>s. X = {s} \<and> (st = [s] \<or> st = [s, s])) \<or> chainInv st X"

section \<open>Degenerate inputs\<close>

text \<open>
  Claim C7. A sequence of at most two points (none, one or two) is returned as it is.
\<close>

theorem getConvexHull_small_unchanged:
  "length points \<le> 2 \<Longrightarrow> getConvexHull points = points"
  by (simp add: getConvexHull_def)

theorem getConvexHull_small_unchanged_witness:
  "length [\<lparr>x = 3, y = 1\<rparr>, \<lparr>x = 0, y = 5\<rparr>] \<le> 2
   \<and> getConvexHull [] = []
   \<and> getConvexHull [\<lparr>x = 3, y = 1\<rparr>] = [\<lparr>x = 3, y = 1\<rparr>]
   \<and> getConvexHull [\<lparr>x = 3, y = 1\<rparr>, \<lparr>x = 0, y = 5\<rparr>] = [\<lparr>x = 3, y = 1\<rparr>, \<lparr>x = 0, y = 5\<rparr>]"
  using getConvexHull_small_unchanged [of "[]"]
    getConvexHull_small_unchanged [of "[\<lparr>x = 3, y = 1\<rparr>]"]
    getConvexHull_small_unchanged [of "[\<lparr>x = 3, y = 1\<rparr>, \<lparr>x = 0, y = 5\<rparr>]"]
  by simp


section \<open>The alert state machine\<close>

lemma logs_handleMotionDetected:
  "logs (fst (handleMotionDetected cfg now idNow stamp video st)) =
     (if now - lastAlertTime st < cooldown cfg * 1000 then logs st
      else \<lparr>id' = idNow, timestamp = stamp,
             imageUrl = (case video of None \<Rightarrow> [] | Some url \<Rightarrow> url),
             analysis = None, isAnalyzing = enableAI cfg\<rparr>
           # take (MAX_LOGS - 1) (logs st))"
  by (simp add: handleMotionDetected_def Let_def MAX_LOGS_def)

lemma effects_handleMotionDetected:
  "snd (handleMotionDetected cfg now idNow stamp video st) =
     (if now - lastAlertTime st < cooldown cfg * 1000 then []
      else (if enableAudio cfg then [AlertSound] else []) @
           (case video of None \<Rightarrow> []
            | Some url \<Rightarrow> if enableAI cfg \<and> url \<noteq> []
                          then [AnalyzeSnapshot idNow url] else []))"
  by (simp add: handleMotionDetected_def Let_def playAlertSound_def split: option.splits)

lemma requested_handleMotionDetected:
  "requested (snd (handleMotionDetected cfg now idNow stamp video st)) =
     (if now - lastAlertTime st < cooldown cfg * 1000 then []
      else if enableAI cfg \<and> video \<noteq> None \<and> video \<noteq> Some [] then [idNow] else [])"
  by (auto simp: effects_handleMotionDetected split: option.splits)

text \<open>
  The two branches of one invocation of the handler, for the configuration \<open>cfg\<close> that
  the invocation has closed over. The status becomes \<open>ALERT\<close>. Inside the cooldown window
  (\<open>cooldown\<close> seconds, the clock counts milliseconds) the time of the last alert and the
  log stay as they are and no effect is started. Otherwise the time of the last alert
  becomes \<open>now\<close>, exactly one entry is put in front of the log, the sound is played exactly
  when \<open>cfg\<close> enables audio, and the description is requested exactly when \<open>cfg\<close> enables
  AI and the snapshot is not empty. Whether \<open>cfg\<close> is the configuration on screen is
  another matter, settled below for the running loop.
\<close>

lemma handleMotionDetected_branches:
  "status (fst (handleMotionDetected cfg now idNow stamp video st)) = ALERT \<and>
   config (fst (handleMotionDetected cfg now idNow stamp video st)) = config st \<and>
   (now - lastAlertTime st < cooldown cfg * 1000 \<longrightarrow>
      lastAlertTime (fst (handleMotionDetected cfg now idNow stamp video st)) = lastAlertTime st \<and>
      logs (fst (handleMotionDetected cfg now idNow stamp video st)) = logs st \<and>
      snd (handleMotionDetected cfg now idNow stamp video st) = []) \<and>
   (\<not> now - lastAlertTime st < cooldown cfg * 1000 \<longrightarrow>
      lastAlertTime (fst (handleMotionDetected cfg now idNow stamp video st)) = now \<and>
      logs (fst (handleMotionDetected cfg now idNow stamp video st)) =
        \<lparr>id' = idNow, timestamp = stamp,
         imageUrl = (case video of None \<Rightarrow> [] | Some url \<Rightarrow> url),
         analysis = None, isAnalyzing = enableAI cfg\<rparr>
        # take (MAX_LOGS - 1) (logs st) \<and>
      snd (handleMotionDetected cfg now idNow stamp video st) =
        (if enableAudio cfg then [AlertSound] else []) @
        (case video of None \<Rightarrow> []
         | Some url \<Rightarrow> if enableAI cfg \<and> url \<noteq> []
                       then [AnalyzeSnapshot idNow url] else []))"
proof -
  have "status (fst (handleMotionDetected cfg now idNow stamp video st)) = ALERT"
    by (simp add: handleMotionDetected_def Let_def)
  moreover have "config (fst (handleMotionDetected cfg now idNow stamp video st)) = config st"
    by (simp add: handleMotionDetected_def Let_def)
  moreover have "lastAlertTime (fst (handleMotionDetected cfg now idNow stamp video st)) =
      (if now - lastAlertTime st < cooldown cfg * 1000 then lastAlertTime st else now)"
    by (simp add: handleMotionDetected_def Let_def)
  ultimately show ?thesis
    by (simp add: logs_handleMotionDetected effects_handleMotionDetected)
qed

text \<open>
  With a cooldown of five seconds and the last alert at \<open>1700000000000\<close>, motion three
  seconds later only sets the status; motion six seconds later logs a new entry, beeps
  and requests a description.
\<close>

lemma handleMotionDetected_branches_example:
  "1700000003000 - lastAlertTime (initialState\<lparr>lastAlertTime := 1700000000000\<rparr>)
     < cooldown DEFAULT_CONFIG * 1000
   \<and> status (fst (handleMotionDetected DEFAULT_CONFIG 1700000003000 1700000003001 1700000003002
        (Some ''data:,'') (initialState\<lparr>lastAlertTime := 1700000000000\<rparr>))) = ALERT
   \<and> lastAlertTime (fst (handleMotionDetected DEFAULT_CONFIG 1700000003000 1700000003001 1700000003002
        (Some ''data:,'') (initialState\<lparr>lastAlertTime := 1700000000000\<rparr>))) = 1700000000000
   \<and> logs (fst (handleMotionDetected DEFAULT_CONFIG 1700000003000 1700000003001 1700000003002
        (Some ''data:,'') (initialState\<lparr>lastAlertTime := 1700000000000\<rparr>))) = []
   \<and> snd (handleMotionDetected DEFAULT_CONFIG 1700000003000 1700000003001 1700000003002
        (Some ''data:,'') (initialState\<lparr>lastAlertTime := 1700000000000\<rparr>)) = []
   \<and> \<not> 1700000006000 - lastAlertTime (initialState\<lparr>lastAlertTime := 1700000000000\<rparr>)
     < cooldown DEFAULT_CONFIG * 1000
   \<and> lastAlertTime (fst (handleMotionDetected DEFAULT_CONFIG 1700000006000 1700000006001 1700000006002
        (Some ''data:,'') (initialState\<lparr>lastAlertTime := 1700000000000\<rparr>))) = 1700000006000
   \<and> logs (fst (handleMotionDetected DEFAULT_CONFIG 1700000006000 1700000006001 1700000006002
        (Some ''data:,'') (initialState\<lparr>lastAlertTime := 1700000000000\<rparr>)))
      = [\<lparr>id' = 1700000006001, timestamp = 1700000006002, imageUrl = ''data:,'',
          analysis = None, isAnalyzing = True\<rparr>]
   \<and> snd (handleMotionDetected DEFAULT_CONFIG 1700000006000 1700000006001 1700000006002
        (Some ''data:,'') (initialState\<lparr>lastAlertTime := 1700000000000\<rparr>))
      = [AlertSound, AnalyzeSnapshot 1700000006001 ''data:,'']"
  using handleMotionDetected_branches
      [of DEFAULT_CONFIG 1700000003000 1700000003001 1700000003002 "Some ''data:,''"
          "initialState\<lparr>lastAlertTime := 1700000000000\<rparr>"]
    handleMotionDetected_branches
      [of DEFAULT_CONFIG 1700000006000 1700000006001 1700000006002 "Some ''data:,''"
          "initialState\<lparr>lastAlertTime := 1700000000000\<rparr>"]
  by (simp add: initialState_def DEFAULT_CONFIG_def MAX_LOGS_def)

text \<open>
  Claim C9. A tick that compares two frames and finds no more changed pixels than the
  trigger threshold sets the status to \<open>IDLE\<close>; the time of the last alert, the
  configuration (and with it the cooldown) and the log are left as they are, whatever the
  time of the last alert is, and no effect is started.
\<close>

theorem detectMotion_no_motion_idle:
  "prevFrameData st = Some prev \<Longrightarrow>
   \<not> int (length (comparePixels (sensitivity cfg) data prev 0 [])) > threshold cfg \<Longrightarrow>
   detectMotion cfg (Some data) now idNow stamp video st = (st', effs, hull) \<Longrightarrow>
   status st' = IDLE \<and> lastAlertTime st' = lastAlertTime st \<and> config st' = config st
   \<and> logs st' = logs st \<and> effs = [] \<and> hull = []"
  by (auto simp: detectMotion_def Let_def)


theorem detectMotion_no_motion_idle_witness:
  "prevFrameData (fullState\<lparr>prevFrameData := Some darkPixel, status := ALERT\<rparr>) = Some darkPixel
   \<and> \<not> int (length (comparePixels (sensitivity DEFAULT_CONFIG)
            redPixel darkPixel 0 []))
        > threshold DEFAULT_CONFIG
   \<and> detectMotion DEFAULT_CONFIG (Some redPixel) 21 22 23 (Some ''data:,'')
        (fullState\<lparr>prevFrameData := Some darkPixel, status := ALERT\<rparr>)
      = (fullState\<lparr>prevFrameData := Some redPixel, status := IDLE, debugDiff := 1\<rparr>, [], [])
   \<and> lastAlertTime (fullState\<lparr>prevFrameData := Some redPixel, status := IDLE, debugDiff := 1\<rparr>) = 20"
proof -
  have cp: "comparePixels 20 redPixel darkPixel 0 [] = [\<lparr>x = 0, y = 0\<rparr>]"
    by (simp add: comparePixels.simps [of _ _ _ 0] comparePixels.simps [of _ _ _ 4] redPixel_def darkPixel_def
        channel_def absDiff_def exceedsSensitivity_def width_def Let_def)
  have st: "sensitivity DEFAULT_CONFIG = 20" "threshold DEFAULT_CONFIG = 150"
    by (simp_all add: DEFAULT_CONFIG_def)
  have dm: "detectMotion DEFAULT_CONFIG (Some redPixel) 21 22 23 (Some ''data:,'')
        (fullState\<lparr>prevFrameData := Some darkPixel, status := ALERT\<rparr>)
      = (fullState\<lparr>prevFrameData := Some redPixel, status := IDLE, debugDiff := 1\<rparr>, [], [])"
    by (simp add: detectMotion_def Let_def cp st)
  have pf: "prevFrameData (fullState\<lparr>prevFrameData := Some darkPixel, status := ALERT\<rparr>) = Some darkPixel"
    by simp
  have nm: "\<not> int (length (comparePixels (sensitivity DEFAULT_CONFIG)
            redPixel darkPixel 0 []))
        > threshold DEFAULT_CONFIG"
    by (simp add: cp st)
  have la: "lastAlertTime (fullState\<lparr>prevFrameData := Some darkPixel, status := ALERT\<rparr>) = 20"
    by (simp add: fullState_def)
  from detectMotion_no_motion_idle [OF pf nm dm] la
  have "lastAlertTime (fullState\<lparr>prevFrameData := Some redPixel, status := IDLE, debugDiff := 1\<rparr>) = 20"
    by simp
  with pf nm dm show ?thesis by blast
qed

section \<open>The frame comparison\<close>

lemma set_comparePixels:
  "set (comparePixels sens data prev i acc) =
     set acc \<union> {pixelPoint (j div 4) | j.
        i \<le> j \<and> j < length data \<and> (j - i) mod 4 = 0 \<and> pixelChanged sens data prev j}"
proof (induction sens data prev i acc rule: comparePixels.induct)
  case (1 sens data prev i acc)
  show ?case
  proof (cases "i < length data")
    case False
    then show ?thesis by (subst comparePixels.simps) auto
  next
    case True
    have unroll: "\<And>j. (i \<le> j \<and> (j - i) mod 4 = 0)
        = (j = i \<or> (i + 4 \<le> j \<and> (j - (i + 4)) mod 4 = 0))"
      by presburger
    have "{pixelPoint (j div 4) | j.
            i \<le> j \<and> j < length data \<and> (j - i) mod 4 = 0 \<and> pixelChanged sens data prev j}
        = (if pixelChanged sens data prev i then {pixelPoint (i div 4)} else {}) \<union>
          {pixelPoint (j div 4) | j.
            i + 4 \<le> j \<and> j < length data \<and> (j - (i + 4)) mod 4 = 0 \<and> pixelChanged sens data prev j}"
      (is "?A = ?B")
    proof -
      have "?A = {pixelPoint (j div 4) | j.
          (j = i \<or> (i + 4 \<le> j \<and> (j - (i + 4)) mod 4 = 0)) \<and> j < length data
          \<and> pixelChanged sens data prev j}"
        using unroll by (metis (no_types, lifting))
      also have "\<dots> = ?B" using True by auto
      finally show ?thesis .
    qed
    then show ?thesis
      using True 1
      by (subst comparePixels.simps) (auto simp: Let_def pixelChanged_def pixelPoint_def)
  qed
qed

lemma pixelPoint_inj: "pixelPoint j = pixelPoint k \<longleftrightarrow> j = k"
  by (auto simp: pixelPoint_def width_def) (metis div_mult_mod_eq)

lemma mem_comparePixels:
  "pixelPoint k \<in> set (comparePixels sens data prev 0 [])
     \<longleftrightarrow> 4 * k < length data \<and> pixelChanged sens data prev (4 * k)"
proof -
  have "pixelPoint k \<in> set (comparePixels sens data prev 0 []) \<longleftrightarrow>
    (\<exists>j. k = j div 4 \<and> j < length data \<and> j mod 4 = 0 \<and> pixelChanged sens data prev j)"
    by (simp only: set_comparePixels pixelPoint_inj mem_Collect_eq Un_iff set_simps empty_iff
        le0 diff_zero simp_thms)
  also have "\<dots> \<longleftrightarrow> 4 * k < length data \<and> pixelChanged sens data prev (4 * k)"
  proof
    assume "\<exists>j. k = j div 4 \<and> j < length data \<and> j mod 4 = 0 \<and> pixelChanged sens data prev j"
    then obtain j where j: "k = j div 4" "j < length data" "j mod 4 = 0"
      "pixelChanged sens data prev j" by (elim exE conjE)
    have j4: "4 * (j div 4) = j" using j(3) by presburger
    show "4 * k < length data \<and> pixelChanged sens data prev (4 * k)"
      unfolding j(1) j4 using j(2,4) by blast
  next
    assume "4 * k < length data \<and> pixelChanged sens data prev (4 * k)"
    then show "\<exists>j. k = j div 4 \<and> j < length data \<and> j mod 4 = 0 \<and> pixelChanged sens data prev j"
      by (intro exI [of _ "4 * k"]) simp
  qed
  finally show ?thesis .
qed

lemma pixelChanged_iff:
  "pixelChanged sens data prev i \<longleftrightarrow>
     i + 2 < length data \<and> i + 2 < length prev \<and>
     \<bar>uint (data ! i) - uint (prev ! i)\<bar>
       + \<bar>uint (data ! (i + 1)) - uint (prev ! (i + 1))\<bar>
       + \<bar>uint (data ! (i + 2)) - uint (prev ! (i + 2))\<bar> > sens"
  by (auto simp: pixelChanged_def exceedsSensitivity_def absDiff_def channel_def split: option.splits)

lemma comparePixels_same:
  assumes "0 \<le> sens"
  shows "comparePixels sens data data 0 [] = []"
proof -
  have "\<not> pixelChanged sens data data j" for j
    using assms by (simp add: pixelChanged_iff)
  then have "set (comparePixels sens data data 0 []) = {}"
    by (simp add: set_comparePixels)
  then show ?thesis by simp
qed

text \<open>
  Claim C3. For two buffers of the same length and any sensitivity, the coordinate of a
  pixel with its three colour channels in the buffer is among the changed pixels exactly
  when the sum of the absolute differences of these channels is greater than the
  sensitivity. A buffer compared with itself gives no changed pixel, for every
  sensitivity of the documented range (\<open>0\<close> and above).
\<close>

theorem comparePixels_changed_iff:
  "(length prev = length data \<longrightarrow> 4 * k + 2 < length data \<longrightarrow>
      (\<lparr>x = int (k mod width), y = int (k div width)\<rparr> \<in> set (comparePixels sens data prev 0 []))
      = (\<bar>uint (data ! (4 * k)) - uint (prev ! (4 * k))\<bar>
          + \<bar>uint (data ! (4 * k + 1)) - uint (prev ! (4 * k + 1))\<bar>
          + \<bar>uint (data ! (4 * k + 2)) - uint (prev ! (4 * k + 2))\<bar> > sens))
   \<and> (0 \<le> sens \<longrightarrow> comparePixels sens data data 0 [] = [])"
  using mem_comparePixels [of k sens data prev] comparePixels_same [of sens data]
  by (auto simp: pixelChanged_iff pixelPoint_def)

theorem comparePixels_changed_iff_witness:
  "length [0, 0, 0, 255, 9, 9, 9, 255 :: 8 word] = length [0, 0, 0, 255, 0, 20, 0, 255 :: 8 word]
   \<and> 4 * 1 + 2 < length [0, 0, 0, 255, 0, 20, 0, 255 :: 8 word]
   \<and> \<bar>uint ([0, 0, 0, 255, 0, 20, 0, 255 :: 8 word] ! (4 * 1)) - uint ([0, 0, 0, 255, 9, 9, 9, 255 :: 8 word] ! (4 * 1))\<bar>
      + \<bar>uint ([0, 0, 0, 255, 0, 20, 0, 255 :: 8 word] ! (4 * 1 + 1)) - uint ([0, 0, 0, 255, 9, 9, 9, 255 :: 8 word] ! (4 * 1 + 1))\<bar>
      + \<bar>uint ([0, 0, 0, 255, 0, 20, 0, 255 :: 8 word] ! (4 * 1 + 2)) - uint ([0, 0, 0, 255, 9, 9, 9, 255 :: 8 word] ! (4 * 1 + 2))\<bar> > 20
   \<and> \<lparr>x = int (1 mod width), y = int (1 div width)\<rparr>
        \<in> set (comparePixels 20 [0, 0, 0, 255, 0, 20, 0, 255] [0, 0, 0, 255, 9, 9, 9, 255] 0 [])
   \<and> (0::int) \<le> 20
   \<and> comparePixels 20 [0, 0, 0, 255, 0, 20, 0, 255] [0, 0, 0, 255, 0, 20, 0, 255] 0 [] = []"
  using comparePixels_changed_iff [of "[0, 0, 0, 255, 9, 9, 9, 255]" "[0, 0, 0, 255, 0, 20, 0, 255]" 1 20]
  by simp

text \<open>
  Claim C2, as stated, fails: the comparison has no dimension check and no error. For a
  current frame of two pixels and a previous frame of one pixel it returns the one pixel
  that could be compared.
\<close>

theorem comparePixels_mismatch_counterexample:
  "length [10, 0, 0, 255, 200, 0, 0, 255 :: 8 word] \<noteq> length [0, 0, 0, 255 :: 8 word]
   \<and> comparePixels 5 [10, 0, 0, 255, 200, 0, 0, 255] [0, 0, 0, 255] 0 [] = [\<lparr>x = 0, y = 0\<rparr>]"
  by (simp add: comparePixels.simps [of _ _ _ 0] comparePixels.simps [of _ _ _ 4]
      comparePixels.simps [of _ _ _ 8]
      channel_def absDiff_def exceedsSensitivity_def width_def Let_def)

text \<open>
  Claim C2, amended. For buffers of any two lengths the comparison returns a result: the
  coordinate of a pixel is among the changed pixels exactly when its three colour
  channels lie inside both buffers and the sum of their absolute differences is greater
  than the sensitivity.
\<close>

theorem comparePixels_total_on_any_buffers:
  "(\<lparr>x = int (k mod width), y = int (k div width)\<rparr> \<in> set (comparePixels sens data prev 0 []))
   = (4 * k + 2 < length data \<and> 4 * k + 2 < length prev
      \<and> \<bar>uint (data ! (4 * k)) - uint (prev ! (4 * k))\<bar>
          + \<bar>uint (data ! (4 * k + 1)) - uint (prev ! (4 * k + 1))\<bar>
          + \<bar>uint (data ! (4 * k + 2)) - uint (prev ! (4 * k + 2))\<bar> > sens)"
  using mem_comparePixels [of k sens data prev]
  by (auto simp: pixelChanged_iff pixelPoint_def)

section \<open>Toggles made while the sampling loop runs\<close>

text \<open>
  When every pixel from byte \<open>i\<close> on has changed, the comparison adds one point for each
  of them.
\<close>

lemma length_comparePixels_all:
  assumes "\<forall>j. i \<le> j \<and> j < length data \<and> (j - i) mod 4 = 0 \<longrightarrow> pixelChanged sens data prev j"
  shows "length (comparePixels sens data prev i acc) = length acc + (length data - i + 3) div 4"
  using assms
proof (induction sens data prev i acc rule: comparePixels.induct)
  case (1 sens data prev i acc)
  show ?case
  proof (cases "i < length data")
    case False
    then show ?thesis by (subst comparePixels.simps) simp
  next
    case True
    have ch: "pixelChanged sens data prev i" using "1.prems" True by simp
    have nxt: "\<forall>j. i + 4 \<le> j \<and> j < length data \<and> (j - (i + 4)) mod 4 = 0
        \<longrightarrow> pixelChanged sens data prev j"
    proof (intro allI impI)
      fix j assume j: "i + 4 \<le> j \<and> j < length data \<and> (j - (i + 4)) mod 4 = 0"
      then obtain m where m: "j = i + 4 + m" using le_iff_add by blast
      with j have "m mod 4 = 0" by simp
      then have "(j - i) mod 4 = 0" unfolding m by simp
      moreover have "i \<le> j" unfolding m by simp
      moreover have "j < length data" using j by (rule conjunct1 [OF conjunct2])
      ultimately have c: "i \<le> j \<and> j < length data \<and> (j - i) mod 4 = 0" by (intro conjI)
      from "1.prems" [THEN spec, THEN mp, OF c] show "pixelChanged sens data prev j" .
    qed
    have ar: "(length data - i + 3) div 4 = Suc ((length data - (i + 4) + 3) div 4)"
    proof (cases "i + 4 \<le> length data")
      case True
      then obtain m where m: "length data = i + 4 + m" using le_iff_add by blast
      have "(m + 7) div 4 = Suc ((m + 3) div 4)" by simp
      then show ?thesis unfolding m by (simp add: add.commute add.left_commute)
    next
      case False
      define d where "d = length data - i"
      have d: "length data = i + d" "0 < d" "d < 4"
        using False \<open>i < length data\<close> by (simp_all add: d_def)
      then have "(d + 3) div 4 = 1" by simp
      with d show ?thesis by simp
    qed
    have "comparePixels sens data prev i acc
        = comparePixels sens data prev (i + 4)
            (acc @ [\<lparr>x = int (i div 4 mod width), y = int (i div 4 div width)\<rparr>])"
      using True ch by (subst comparePixels.simps) (simp add: Let_def pixelChanged_def)
    then have "length (comparePixels sens data prev i acc)
        = length (comparePixels sens data prev (i + 4)
            (acc @ [\<lparr>x = int (i div 4 mod width), y = int (i div 4 div width)\<rparr>]))"
      by (rule arg_cong)
    also have "\<dots> = length (acc @ [\<lparr>x = int (i div 4 mod width), y = int (i div 4 div width)\<rparr>])
          + (length data - (i + 4) + 3) div 4"
      using "1.IH" [OF True refl refl refl refl] ch nxt
      by (simp add: pixelChanged_def)
    also have "\<dots> = length acc + Suc ((length data - (i + 4) + 3) div 4)" by simp
    also have "\<dots> = length acc + (length data - i + 3) div 4" by (simp only: ar)
    finally show ?thesis .
  qed
qed

lemma length_white_black:
  "length (comparePixels 20 whiteFrame blackFrame 0 []) = 3072"
proof -
  have "pixelChanged 20 whiteFrame blackFrame j"
    if "j < length whiteFrame" "j mod 4 = 0" for j
  proof -
    have "length whiteFrame = 12288" by (simp add: whiteFrame_def width_def height_def)
    with that have "j + 2 < 12288" by presburger
    then show ?thesis
      by (simp add: pixelChanged_iff whiteFrame_def blackFrame_def width_def height_def)
  qed
  then have "length (comparePixels 20 whiteFrame blackFrame 0 [])
      = length ([] :: Point list) + (length whiteFrame - 0 + 3) div 4"
    by (intro length_comparePixels_all) simp
  then show ?thesis by (simp add: whiteFrame_def width_def height_def)
qed

text \<open>
  The effect that starts the sampling loop is
  \<^verbatim>\<open>useEffect(() => { ... setInterval(detectMotion, 100) ... }, [hasPermission, config.sensitivity, config.threshold, config.cooldown])\<close>.
  Its dependencies leave out \<^verbatim>\<open>config.enableAudio\<close> and \<^verbatim>\<open>config.enableAI\<close>, so a toggle of
  either flag renders the component again but does not restart the interval: the interval
  keeps calling the \<^verbatim>\<open>detectMotion\<close>, \<^verbatim>\<open>handleMotionDetected\<close> and \<^verbatim>\<open>playAlertSound\<close> of the
  render in which it was started. After \<open>flagsOffRun\<close> the configuration has both flags off
  and the interval still holds the default configuration.
\<close>

lemma run_flagsOffRun:
  "run initialSystem flagsOffRun =
     \<lparr>app = initialState\<lparr>config := DEFAULT_CONFIG\<lparr>enableAudio := False, enableAI := False\<rparr>,
                            prevFrameData := Some blackFrame\<rparr>,
      seenConfig = DEFAULT_CONFIG, inFlight = []\<rparr>"
  by (simp add: run_def flagsOffRun_def initialSystem_def initialState_def detectMotion_def
      DEFAULT_CONFIG_def)

text \<open>
  Claim C1 says that on a qualifying trigger the side effects are invoked per the
  configuration flags. In the running application this fails. After \<open>flagsOffRun\<close> the
  configuration has audio and AI switched off. Nine seconds after the start (the cooldown
  is five seconds and no alert has fired) a tick sees a white frame after a black one:
  all \<open>3072\<close> pixels have changed, more than the threshold of \<open>150\<close>. The tick still plays
  the sound and still requests a description of the snapshot, and the entry it logs is
  marked as being analysed, although both flags of the configuration are off. The same
  handler built from the configuration on screen would log the entry, not marked as being
  analysed, and start no effect. The code means to follow the flag (\<^verbatim>\<open>playAlertSound\<close> is
  a \<^verbatim>\<open>useCallback\<close> on \<^verbatim>\<open>[config.enableAudio]\<close>) but the interval never picks the new
  callback up.
\<close>

theorem stale_flags_still_fire:
  "enableAudio (config (app (run initialSystem flagsOffRun))) = False
   \<and> enableAI (config (app (run initialSystem flagsOffRun))) = False
   \<and> stepEffects (run initialSystem flagsOffRun)
        (Sample (Some whiteFrame) 1700000009000 1700000009001 1700000009002
           (Some ''data:image/jpeg;base64,AA''))
      = [AlertSound, AnalyzeSnapshot 1700000009001 ''data:image/jpeg;base64,AA'']
   \<and> logs (app (step (run initialSystem flagsOffRun)
        (Sample (Some whiteFrame) 1700000009000 1700000009001 1700000009002
           (Some ''data:image/jpeg;base64,AA''))))
      = [\<lparr>id' = 1700000009001, timestamp = 1700000009002,
          imageUrl = ''data:image/jpeg;base64,AA'', analysis = None, isAnalyzing = True\<rparr>]
   \<and> snd (handleMotionDetected (config (app (run initialSystem flagsOffRun)))
        1700000009000 1700000009001 1700000009002 (Some ''data:image/jpeg;base64,AA'')
        (app (run initialSystem flagsOffRun))) = []
   \<and> logs (fst (handleMotionDetected (config (app (run initialSystem flagsOffRun)))
        1700000009000 1700000009001 1700000009002 (Some ''data:image/jpeg;base64,AA'')
        (app (run initialSystem flagsOffRun))))
      = [\<lparr>id' = 1700000009001, timestamp = 1700000009002,
          imageUrl = ''data:image/jpeg;base64,AA'', analysis = None, isAnalyzing = False\<rparr>]"
proof -
  have cfg: "sensitivity DEFAULT_CONFIG = 20" "threshold DEFAULT_CONFIG = 150"
    "cooldown DEFAULT_CONFIG = 5" "enableAudio DEFAULT_CONFIG" "enableAI DEFAULT_CONFIG"
    by (simp_all add: DEFAULT_CONFIG_def)
  have tick: "detectMotion DEFAULT_CONFIG (Some whiteFrame) 1700000009000 1700000009001
        1700000009002 (Some ''data:image/jpeg;base64,AA'')
        (initialState\<lparr>config := DEFAULT_CONFIG\<lparr>enableAudio := False, enableAI := False\<rparr>,
                       prevFrameData := Some blackFrame\<rparr>)
     = (initialState\<lparr>config := DEFAULT_CONFIG\<lparr>enableAudio := False, enableAI := False\<rparr>,
                       debugDiff := 3072, lastAlertTime := 1700000009000, status := ALERT,
                       logs := [\<lparr>id' = 1700000009001, timestamp = 1700000009002,
                                 imageUrl = ''data:image/jpeg;base64,AA'', analysis = None,
                                 isAnalyzing = True\<rparr>],
                       prevFrameData := Some whiteFrame\<rparr>,
        [AlertSound, AnalyzeSnapshot 1700000009001 ''data:image/jpeg;base64,AA''],
        getConvexHull (comparePixels 20 whiteFrame blackFrame 0 []))"
    by (simp add: detectMotion_def handleMotionDetected_def playAlertSound_def Let_def cfg
        length_white_black initialState_def MAX_LOGS_def)
  have fresh: "handleMotionDetected (DEFAULT_CONFIG\<lparr>enableAudio := False, enableAI := False\<rparr>)
        1700000009000 1700000009001 1700000009002 (Some ''data:image/jpeg;base64,AA'')
        (initialState\<lparr>config := DEFAULT_CONFIG\<lparr>enableAudio := False, enableAI := False\<rparr>,
                       prevFrameData := Some blackFrame\<rparr>)
     = (initialState\<lparr>config := DEFAULT_CONFIG\<lparr>enableAudio := False, enableAI := False\<rparr>,
                       lastAlertTime := 1700000009000, status := ALERT,
                       logs := [\<lparr>id' = 1700000009001, timestamp = 1700000009002,
                                 imageUrl = ''data:image/jpeg;base64,AA'', analysis = None,
                                 isAnalyzing = False\<rparr>],
                       prevFrameData := Some blackFrame\<rparr>, [])"
    by (simp add: handleMotionDetected_def playAlertSound_def Let_def cfg initialState_def
        MAX_LOGS_def)
  show ?thesis
    unfolding run_flagsOffRun by (simp add: tick fresh)
qed

section \<open>The motion log\<close>

lemma logs_detectMotion:
  "logs (fst (detectMotion cfg frame now idNow stamp video st)) = logs st \<or>
   logs (fst (detectMotion cfg frame now idNow stamp video st)) =
      \<lparr>id' = idNow, timestamp = stamp,
       imageUrl = (case video of None \<Rightarrow> [] | Some url \<Rightarrow> url),
       analysis = None, isAnalyzing = enableAI cfg\<rparr> # take (MAX_LOGS - 1) (logs st)"
  by (simp add: detectMotion_def Let_def split_def logs_handleMotionDetected split: option.splits)

lemma requested_detectMotion:
  "requested (fst (snd (detectMotion cfg frame now idNow stamp video st))) = [] \<or>
   requested (fst (snd (detectMotion cfg frame now idNow stamp video st))) = [idNow]"
  by (simp add: detectMotion_def Let_def split_def requested_handleMotionDetected
      split: option.splits)

lemma entryKey_analysisResolved:
  "map entryKey (logs (analysisResolved i description st)) = map entryKey (logs st)"
  by (simp add: analysisResolved_def entryKey_def)

lemma entryKey_analysisRejected:
  "map entryKey (logs (analysisRejected i st)) = map entryKey (logs st)"
  by (simp add: analysisRejected_def entryKey_def)

lemma logs_step_cases:
  "map entryKey (logs (app (step sys ev))) = map entryKey (logs (app sys))
   \<or> (\<exists>newLog. logs (app (step sys ev)) = newLog # take (MAX_LOGS - 1) (logs (app sys)))"
proof (cases ev)
  case (Sample frame now idNow stamp video)
  show ?thesis
    using logs_detectMotion [of "seenConfig sys" frame now idNow stamp video "app sys"]
    by (auto simp: Sample split_def Let_def)
next
  case (Configure cfg)
  then show ?thesis by simp
next
  case (AnalysisDone i res)
  then show ?thesis
    by (auto simp: entryKey_analysisResolved entryKey_analysisRejected split: option.splits)
qed

lemma length_logs_step:
  assumes "length (logs (app sys)) \<le> MAX_LOGS"
  shows "length (logs (app (step sys ev))) \<le> MAX_LOGS"
proof -
  consider "map entryKey (logs (app (step sys ev))) = map entryKey (logs (app sys))"
    | newLog where "logs (app (step sys ev)) = newLog # take (MAX_LOGS - 1) (logs (app sys))"
    using logs_step_cases [of sys ev] by blast
  then show ?thesis
  proof cases
    case 1
    then have "length (logs (app (step sys ev))) = length (logs (app sys))"
      by (metis length_map)
    with assms show ?thesis by simp
  next
    case 2
    then show ?thesis by (simp add: MAX_LOGS_def)
  qed
qed

lemma length_logs_run:
  "length (logs (app sys)) \<le> MAX_LOGS \<Longrightarrow> length (logs (app (run sys evs))) \<le> MAX_LOGS"
  unfolding run_def
  by (induction evs arbitrary: sys) (simp_all add: length_logs_step)

text \<open>
  Claim C4. From the initial state, and from any state whose log has at most \<open>MAX_LOGS\<close>
  entries, no run makes the log longer than \<open>MAX_LOGS = 20\<close>. A qualifying trigger puts
  the new entry in front of the first \<open>MAX_LOGS - 1\<close> old entries, in their order; on a full
  log these are all entries but the last, the oldest. Every step of the application
  either keeps identifier, time stamp and image of every entry in place or is such an
  append, and so do both completions of a description request.
\<close>

theorem motion_log_bounded_and_ordered:
  "length (logs (app (run initialSystem evs))) \<le> MAX_LOGS
   \<and> (length (logs (app sys)) \<le> MAX_LOGS \<longrightarrow> length (logs (app (run sys evs))) \<le> MAX_LOGS)
   \<and> (\<not> now - lastAlertTime st < cooldown cfg * 1000 \<longrightarrow>
        tl (logs (fst (handleMotionDetected cfg now idNow stamp video st))) = take (MAX_LOGS - 1) (logs st)
        \<and> id' (hd (logs (fst (handleMotionDetected cfg now idNow stamp video st)))) = idNow
        \<and> (length (logs st) = MAX_LOGS \<longrightarrow>
             tl (logs (fst (handleMotionDetected cfg now idNow stamp video st))) = butlast (logs st)))
   \<and> (map entryKey (logs (app (step sys ev))) = map entryKey (logs (app sys))
        \<or> (\<exists>newLog. logs (app (step sys ev)) = newLog # take (MAX_LOGS - 1) (logs (app sys))))
   \<and> map entryKey (logs (analysisResolved i description st)) = map entryKey (logs st)
   \<and> map entryKey (logs (analysisRejected i st)) = map entryKey (logs st)"
proof -
  have "length (logs (app initialSystem)) \<le> MAX_LOGS"
    by (simp add: initialSystem_def initialState_def)
  then have init: "length (logs (app (run initialSystem evs))) \<le> MAX_LOGS"
    by (rule length_logs_run)
  have evict: "take (MAX_LOGS - 1) (logs st) = butlast (logs st)" if "length (logs st) = MAX_LOGS"
    using that by (simp add: butlast_conv_take)
  show ?thesis
    using init length_logs_run [of sys evs] logs_step_cases [of sys ev] evict
    by (simp add: logs_handleMotionDetected entryKey_analysisResolved entryKey_analysisRejected)
qed

theorem motion_log_bounded_and_ordered_witness:
  "length (logs (app \<lparr>app = fullState, seenConfig = DEFAULT_CONFIG, inFlight = []\<rparr>)) \<le> MAX_LOGS
   \<and> length (logs (app (run \<lparr>app = fullState, seenConfig = DEFAULT_CONFIG, inFlight = []\<rparr>
         [Sample (Some darkPixel) 6000 21 22 None, AnalysisDone 20 (Some ''cat'')]))) \<le> MAX_LOGS
   \<and> \<not> 6000 - lastAlertTime fullState < cooldown DEFAULT_CONFIG * 1000
   \<and> length (logs fullState) = MAX_LOGS
   \<and> id' (hd (logs (fst (handleMotionDetected DEFAULT_CONFIG 6000 21 22 None fullState)))) = 21
   \<and> tl (logs (fst (handleMotionDetected DEFAULT_CONFIG 6000 21 22 None fullState)))
       = map exampleEntry [20, 19, 18, 17, 16, 15, 14, 13, 12, 11, 10, 9, 8, 7, 6, 5, 4, 3, 2]"
  using motion_log_bounded_and_ordered [where sys = "\<lparr>app = fullState, seenConfig = DEFAULT_CONFIG, inFlight = []\<rparr>"
      and evs = "[Sample (Some darkPixel) 6000 21 22 None, AnalysisDone 20 (Some ''cat'')]"
      and st = fullState and cfg = DEFAULT_CONFIG and now = 6000 and idNow = 21 and stamp = 22 and video = None]
  by (simp add: fullState_def initialState_def DEFAULT_CONFIG_def MAX_LOGS_def)

section \<open>Entries that stay pending\<close>

lemma pendingForever_step:
  assumes "pendingForever k sys" and "otherId k ev"
  shows "pendingForever k (step sys ev)"
proof (cases ev)
  case (Sample frame now idNow stamp video)
  have ne: "idNow \<noteq> k" using assms(2) Sample by simp
  have "\<forall>e \<in> set (logs (app (step sys ev))). id' e = k \<longrightarrow> isAnalyzing e \<and> analysis e = None"
    using logs_detectMotion [of "seenConfig sys" frame now idNow stamp video "app sys"] assms(1) ne
    by (fastforce simp: Sample pendingForever_def list_all_iff split_def Let_def dest: in_set_takeD)
  moreover have "k \<notin> set (inFlight (step sys ev))"
    using requested_detectMotion [of "seenConfig sys" frame now idNow stamp video "app sys"] assms(1) ne
    by (auto simp: Sample pendingForever_def split_def Let_def)
  ultimately show ?thesis by (simp add: pendingForever_def list_all_iff)
next
  case (Configure cfg)
  with assms(1) show ?thesis by (simp add: pendingForever_def)
next
  case (AnalysisDone i res)
  with assms(1) show ?thesis
    by (auto simp: pendingForever_def list_all_iff analysisResolved_def analysisRejected_def
        split: option.splits dest: notin_set_remove1)
qed

lemma pendingForever_run:
  "pendingForever k sys \<Longrightarrow> list_all (otherId k) evs \<Longrightarrow> pendingForever k (run sys evs)"
  unfolding run_def
  by (induction evs arbitrary: sys) (simp_all add: pendingForever_step)

text \<open>
  Claim C10. A qualifying trigger with AI enabled and an empty snapshot starts no
  description request (only the sound, if enabled) and logs an entry marked as being
  analysed. Provided the identifier \<open>k\<close> of the entry is new (not in flight, not in the
  log, and not read again by a later tick), after every run every entry with this
  identifier is still marked as being analysed and has no description, and no request
  for it is in flight.
\<close>

theorem empty_snapshot_entry_stays_pending:
  assumes qualifying: "\<not> now - lastAlertTime st < cooldown cfg * 1000"
    and ai: "enableAI cfg"
    and empty: "video = None \<or> video = Some []"
    and fresh: "k \<notin> set pending" "list_all (\<lambda>e. id' e \<noteq> k) (logs st)"
    and later: "list_all (otherId k) evs"
  shows "snd (handleMotionDetected cfg now k stamp video st) = playAlertSound cfg
     \<and> hd (logs (fst (handleMotionDetected cfg now k stamp video st)))
         = \<lparr>id' = k, timestamp = stamp, imageUrl = [], analysis = None, isAnalyzing = True\<rparr>
     \<and> pendingForever k
         (run \<lparr>app = fst (handleMotionDetected cfg now k stamp video st),
               seenConfig = seen, inFlight = pending @ requested (snd (handleMotionDetected cfg now k stamp video st))\<rparr> evs)"
proof -
  have effs: "snd (handleMotionDetected cfg now k stamp video st) = playAlertSound cfg"
    using qualifying empty by (auto simp: effects_handleMotionDetected playAlertSound_def)
  have entry: "logs (fst (handleMotionDetected cfg now k stamp video st))
      = \<lparr>id' = k, timestamp = stamp, imageUrl = [], analysis = None, isAnalyzing = True\<rparr>
        # take (MAX_LOGS - 1) (logs st)"
    using qualifying ai empty by (auto simp: logs_handleMotionDetected)
  have req: "requested (snd (handleMotionDetected cfg now k stamp video st)) = []"
    using qualifying empty by (auto simp: requested_handleMotionDetected)
  have "pendingForever k \<lparr>app = fst (handleMotionDetected cfg now k stamp video st),
      seenConfig = seen, inFlight = pending @ requested (snd (handleMotionDetected cfg now k stamp video st))\<rparr>"
    using fresh by (auto simp: pendingForever_def entry req list_all_iff dest: in_set_takeD)
  from pendingForever_run [OF this later] effs entry show ?thesis by simp
qed

lemma comparePixels_red_dark: "comparePixels 20 redPixel darkPixel 0 [] = [\<lparr>x = 0, y = 0\<rparr>]"
  by (simp add: comparePixels.simps [of _ _ _ 0] comparePixels.simps [of _ _ _ 4]
      redPixel_def darkPixel_def channel_def absDiff_def exceedsSensitivity_def width_def Let_def)

theorem empty_snapshot_entry_stays_pending_witness:
  "\<not> 1700000000000 - lastAlertTime initialState < cooldown DEFAULT_CONFIG * 1000
   \<and> enableAI DEFAULT_CONFIG
   \<and> 1700000000001 \<notin> set ([] :: int list)
   \<and> list_all (\<lambda>e. id' e \<noteq> 1700000000001) (logs initialState)
   \<and> list_all (otherId 1700000000001)
        [AnalysisDone 1700000000001 (Some ''late''),
         Configure (DEFAULT_CONFIG\<lparr>threshold := 0\<rparr>),
         Sample (Some darkPixel) 1700000008000 1700000008001 1700000008002 (Some ''data:,''),
         Sample (Some redPixel) 1700000009000 1700000009001 1700000009002 (Some ''data:,''),
         AnalysisDone 1700000009001 (Some ''A person walks by.'')]
   \<and> snd (handleMotionDetected DEFAULT_CONFIG 1700000000000 1700000000001 1700000000002 None initialState)
       = [AlertSound]
   \<and> pendingForever 1700000000001
        (run \<lparr>app = fst (handleMotionDetected DEFAULT_CONFIG 1700000000000 1700000000001 1700000000002 None initialState),
              seenConfig = DEFAULT_CONFIG, inFlight = [] @ requested (snd (handleMotionDetected DEFAULT_CONFIG 1700000000000 1700000000001
                                                1700000000002 None initialState))\<rparr>
           [AnalysisDone 1700000000001 (Some ''late''),
            Configure (DEFAULT_CONFIG\<lparr>threshold := 0\<rparr>),
            Sample (Some darkPixel) 1700000008000 1700000008001 1700000008002 (Some ''data:,''),
            Sample (Some redPixel) 1700000009000 1700000009001 1700000009002 (Some ''data:,''),
            AnalysisDone 1700000009001 (Some ''A person walks by.'')])
   \<and> logs (app (run \<lparr>app = fst (handleMotionDetected DEFAULT_CONFIG 1700000000000 1700000000001 1700000000002 None initialState),
              seenConfig = DEFAULT_CONFIG, inFlight = [] @ requested (snd (handleMotionDetected DEFAULT_CONFIG 1700000000000 1700000000001
                                                1700000000002 None initialState))\<rparr>
           [AnalysisDone 1700000000001 (Some ''late''),
            Configure (DEFAULT_CONFIG\<lparr>threshold := 0\<rparr>),
            Sample (Some darkPixel) 1700000008000 1700000008001 1700000008002 (Some ''data:,''),
            Sample (Some redPixel) 1700000009000 1700000009001 1700000009002 (Some ''data:,''),
            AnalysisDone 1700000009001 (Some ''A person walks by.'')]))
      = [\<lparr>id' = 1700000009001, timestamp = 1700000009002, imageUrl = ''data:,'',
          analysis = Some ''A person walks by.'', isAnalyzing = False\<rparr>,
         \<lparr>id' = 1700000000001, timestamp = 1700000000002, imageUrl = [],
          analysis = None, isAnalyzing = True\<rparr>]"
  using empty_snapshot_entry_stays_pending [of 1700000000000 initialState DEFAULT_CONFIG None 1700000000001 "[]"
      "[AnalysisDone 1700000000001 (Some ''late''),
        Configure (DEFAULT_CONFIG\<lparr>threshold := 0\<rparr>),
        Sample (Some darkPixel) 1700000008000 1700000008001 1700000008002 (Some ''data:,''),
        Sample (Some redPixel) 1700000009000 1700000009001 1700000009002 (Some ''data:,''),
        AnalysisDone 1700000009001 (Some ''A person walks by.'')]" 1700000000002]
  by (simp add: initialState_def DEFAULT_CONFIG_def playAlertSound_def run_def
      handleMotionDetected_def detectMotion_def Let_def MAX_LOGS_def comparePixels_red_dark
      analysisResolved_def getConvexHull_def)

section \<open>Sorting with the comparator\<close>

lemma cmp_total: "cmp a b \<le> 0 \<or> cmp b a \<le> 0"
  by (auto simp: cmp_def)

lemma cmp_trans: "cmp a b \<le> 0 \<Longrightarrow> cmp b c \<le> 0 \<Longrightarrow> cmp a c \<le> 0"
  by (auto simp: cmp_def split: if_splits)

lemma cmp_antisym: "cmp a b \<le> 0 \<Longrightarrow> cmp b a \<le> 0 \<Longrightarrow> a = (b :: Point)"
  by (auto simp: cmp_def split: if_splits)

lemma cmp_refl [simp]: "cmp a a = 0"
  by (simp add: cmp_def)

lemma mset_insort_cmp: "mset (insort_cmp p qs) = add_mset p (mset qs)"
  by (induction qs) auto

lemma mset_sort_points: "mset (sort_points ps) = mset ps"
  by (induction ps) (auto simp: sort_points_def mset_insort_cmp)

lemma set_sort_points: "set (sort_points ps) = set ps"
  by (metis mset_sort_points set_mset_mset)

lemma length_sort_points: "length (sort_points ps) = length ps"
  by (metis mset_sort_points size_mset)

lemma set_insort_cmp: "set (insort_cmp p qs) = insert p (set qs)"
  by (metis mset_insort_cmp set_mset_add_mset_insert set_mset_mset)

lemma sorted_insort_cmp:
  "sorted_wrt (\<lambda>a b. cmp a b \<le> 0) qs \<Longrightarrow> sorted_wrt (\<lambda>a b. cmp a b \<le> 0) (insort_cmp p qs)"
proof (induction qs)
  case Nil
  then show ?case by simp
next
  case (Cons q qs)
  show ?case
  proof (cases "cmp p q \<le> 0")
    case True
    with Cons.prems show ?thesis by (auto intro: cmp_trans)
  next
    case False
    then have "cmp q p \<le> 0" using cmp_total by blast
    with False Cons show ?thesis by (auto simp: set_insort_cmp)
  qed
qed

lemma sorted_sort_points: "sorted_wrt (\<lambda>a b. cmp a b \<le> 0) (sort_points ps)"
  by (induction ps) (simp_all add: sort_points_def sorted_insort_cmp)

lemma sorted_cmp_unique:
  "sorted_wrt (\<lambda>a b. cmp a b \<le> 0) xs \<Longrightarrow> sorted_wrt (\<lambda>a b. cmp a b \<le> 0) ys \<Longrightarrow>
   mset xs = mset ys \<Longrightarrow> xs = ys"
proof (induction xs arbitrary: ys)
  case Nil
  then show ?case by simp
next
  case (Cons a xs)
  from Cons.prems(3) obtain b ys' where ys: "ys = b # ys'"
    by (cases ys) auto
  have "a \<in> set ys" using Cons.prems(3) by (metis list.set_intros(1) set_mset_mset)
  then have ba: "cmp b a \<le> 0" using Cons.prems(2) ys by auto
  have "b \<in> set (a # xs)" using Cons.prems(3) ys by (metis list.set_intros(1) set_mset_mset)
  then have "cmp a b \<le> 0" using Cons.prems(1) by auto
  with ba have ab: "a = b" by (rule cmp_antisym [rotated])
  with Cons.prems ys have "xs = ys'" by (intro Cons.IH) auto
  with ab ys show ?case by simp
qed

lemma sort_points_mset_cong: "mset ps = mset qs \<Longrightarrow> sort_points ps = sort_points qs"
  by (intro sorted_cmp_unique sorted_sort_points) (simp add: mset_sort_points)

lemma sort_points_sorted_id: "sorted_wrt (\<lambda>a b. cmp a b \<le> 0) ps \<Longrightarrow> sort_points ps = ps"
  by (intro sorted_cmp_unique sorted_sort_points) (simp_all add: mset_sort_points)

section \<open>The stack loop\<close>

lemma pop_while_Nil [simp]: "pop_while [] p = []"
  by (simp add: pop_while.simps)

lemma pop_while_single [simp]: "pop_while [a] p = [a]"
  by (simp add: pop_while.simps)

lemma pop_while_snoc2:
  "pop_while (st @ [a, b]) p =
     (if cross a b p \<le> 0 then pop_while (st @ [a]) p else st @ [a, b])"
  by (subst pop_while.simps) (simp add: nth_append butlast_append)

lemma pop_while_pair [simp]:
  "pop_while [a, b] p = (if cross a b p \<le> 0 then [a] else [a, b])"
  using pop_while_snoc2 [of "[]" a b p] by simp

text \<open>
  The hull only selects among its input points: it never computes a new coordinate.
\<close>

lemma set_pop_while_subset: "set (pop_while st p) \<subseteq> set st"
proof (induction st p rule: pop_while.induct)
  case (1 st p)
  show ?case
  proof (cases "length st \<ge> 2 \<and> cross (st ! (length st - 2)) (st ! (length st - 1)) p \<le> 0")
    case True
    then have "pop_while st p = pop_while (butlast st) p"
      by (subst pop_while.simps) simp
    moreover have "set (pop_while (butlast st) p) \<subseteq> set (butlast st)"
      using True by (rule "1.IH")
    moreover have "set (butlast st) \<subseteq> set st"
      by (auto dest: in_set_butlastD)
    ultimately show ?thesis by simp
  next
    case False
    have "pop_while st p = st"
      by (subst pop_while.simps) (simp only: False if_False)
    then show ?thesis by simp
  qed
qed

lemma set_build_chain_subset: "set (build_chain st ps) \<subseteq> set st \<union> set ps"
proof (induction ps arbitrary: st)
  case Nil
  then show ?case by simp
next
  case (Cons p ps)
  have "set (build_chain (pop_while st p @ [p]) ps) \<subseteq> set (pop_while st p @ [p]) \<union> set ps"
    by (rule Cons.IH)
  with set_pop_while_subset [of st p] show ?case by auto
qed

lemma set_getConvexHull_subset: "set (getConvexHull points) \<subseteq> set points"
proof (cases "length points \<le> 2")
  case True
  then show ?thesis by (simp add: getConvexHull_def)
next
  case False
  have "set (butlast (build_chain [] (sort_points points))) \<subseteq> set points"
    using set_build_chain_subset [of "[]" "sort_points points"]
    by (auto dest: in_set_butlastD simp: set_sort_points)
  moreover have "set (butlast (build_chain [] (rev (sort_points points)))) \<subseteq> set points"
    using set_build_chain_subset [of "[]" "rev (sort_points points)"]
    by (auto dest: in_set_butlastD simp: set_sort_points)
  ultimately show ?thesis
    using False by (simp add: getConvexHull_def Let_def)
qed

lemma getConvexHull_inExactRange:
  "list_all inExactRange points \<Longrightarrow> list_all inExactRange (getConvexHull points)"
  using set_getConvexHull_subset [of points] by (auto simp: list_all_iff)

text \<open>
  The points that \<^verbatim>\<open>detectMotion\<close> hands to \<^verbatim>\<open>getConvexHull\<close> come from a frame of at most
  \<open>4 * width * height\<close> bytes, and are in the exact range.
\<close>

lemma comparePixels_inExactRange:
  assumes "length data \<le> 4 * width * height"
  shows "list_all inExactRange (comparePixels sens data prev 0 [])"
proof -
  have "inExactRange (pixelPoint (j div 4))" if "j < length data" for j
  proof -
    from that assms have "j < 12288" by (simp add: width_def height_def)
    then have "j div 4 div 64 \<le> 12288" "j div 4 mod 64 \<le> 64" by simp_all
    then show ?thesis by (simp add: inExactRange_def pixelPoint_def width_def)
  qed
  then show ?thesis
    by (auto simp: list_all_iff set_comparePixels)
qed

section \<open>Collinear inputs\<close>

lemma pop_while_all_nonpos:
  assumes "\<forall>a \<in> set st. \<forall>b \<in> set st. cross a b p \<le> 0"
  shows "pop_while st p = take 1 st"
  using assms
proof (induction st rule: rev_induct)
  case Nil
  then show ?case by simp
next
  case (snoc b st)
  show ?case
  proof (cases st rule: rev_cases)
    case Nil
    then show ?thesis by simp
  next
    case (snoc st' a)
    have "cross a b p \<le> 0" using snoc.prems \<open>st = st' @ [a]\<close> by simp
    then have "pop_while (st @ [b]) p = pop_while st p"
      using pop_while_snoc2 [of st' a b p] \<open>st = st' @ [a]\<close> by simp
    also have "\<dots> = take 1 st" using snoc.prems by (intro snoc.IH) simp
    also have "\<dots> = take 1 (st @ [b])" using \<open>st = st' @ [a]\<close> by (cases st') simp_all
    finally show ?thesis .
  qed
qed

lemma build_chain_collinear:
  assumes "\<forall>a \<in> set (s # st @ ps). \<forall>b \<in> set (s # st @ ps). \<forall>c \<in> set (s # st @ ps). cross a b c = 0"
  shows "build_chain (s # st) ps = (if ps = [] then s # st else [s, last ps])"
  using assms
proof (induction ps arbitrary: st)
  case Nil
  then show ?case by simp
next
  case (Cons p ps)
  have "pop_while (s # st) p = take 1 (s # st)"
    using Cons.prems by (intro pop_while_all_nonpos) simp
  then have step: "build_chain (s # st) (p # ps) = build_chain (s # [p]) ps" by simp
  have "build_chain (s # [p]) ps = (if ps = [] then s # [p] else [s, last ps])"
    using Cons.prems by (intro Cons.IH) simp
  with step show ?case by simp
qed

lemma build_chain_collinear_all:
  assumes "\<forall>a \<in> set ps. \<forall>b \<in> set ps. \<forall>c \<in> set ps. cross a b c = 0" and "2 \<le> length ps"
  shows "build_chain [] ps = [hd ps, last ps]"
proof -
  from assms(2) obtain s q qs where ps: "ps = s # q # qs"
    by (cases ps; cases "tl ps") auto
  have "build_chain [] ps = build_chain (s # []) (q # qs)" by (simp add: ps)
  also have "\<dots> = [s, last (q # qs)]"
    using assms(1) by (subst build_chain_collinear) (simp_all add: ps)
  finally show ?thesis by (simp add: ps)
qed

lemma hd_sort_points_least:
  assumes "p \<in> set ps"
  shows "cmp (hd (sort_points ps)) p \<le> 0"
proof -
  have "p \<in> set (sort_points ps)" using assms by (simp add: set_sort_points)
  then show ?thesis
    using sorted_sort_points [of ps] by (cases "sort_points ps") auto
qed

lemma last_sort_points_greatest:
  assumes "p \<in> set ps"
  shows "cmp p (last (sort_points ps)) \<le> 0"
proof -
  have "p \<in> set (sort_points ps)" using assms by (simp add: set_sort_points)
  then show ?thesis
    using sorted_sort_points [of ps]
    by (cases "sort_points ps" rule: rev_cases) (auto simp: sorted_wrt_append)
qed

lemma getConvexHull_collinear_ends:
  assumes "3 \<le> length points"
    and "\<forall>a \<in> set points. \<forall>b \<in> set points. \<forall>c \<in> set points. cross a b c = 0"
  shows "getConvexHull points = [hd (sort_points points), last (sort_points points)]"
proof -
  let ?S = "sort_points points"
  have len: "2 \<le> length ?S" "2 \<le> length (rev ?S)" "?S \<noteq> []"
    using assms(1) length_sort_points [of points] by auto
  have col: "\<forall>a \<in> set ?S. \<forall>b \<in> set ?S. \<forall>c \<in> set ?S. cross a b c = 0"
    using assms(2) by (simp add: set_sort_points)
  have lower: "build_chain [] ?S = [hd ?S, last ?S]"
    using col len(1) by (rule build_chain_collinear_all)
  have upper: "build_chain [] (rev ?S) = [last ?S, hd ?S]"
    using build_chain_collinear_all [of "rev ?S"] col len by (simp add: hd_rev last_rev)
  show ?thesis
    using assms(1) by (simp add: getConvexHull_def Let_def lower upper)
qed

text \<open>
  Claim C5. Three or more points with coordinates in the range where the arithmetic of
  the source is exact, that are all collinear (every triple has cross product \<open>0\<close>), give
  exactly two points: the least and the greatest input point in the order of the sort
  (by \<open>x\<close>, then by \<open>y\<close>), which are the two ends of the segment that holds the points.
\<close>

theorem getConvexHull_collinear:
  assumes "3 \<le> length points"
    and "list_all inExactRange points"
    and "\<forall>a \<in> set points. \<forall>b \<in> set points. \<forall>c \<in> set points. cross a b c = 0"
  shows "\<exists>lo hi. getConvexHull points = [lo, hi] \<and> lo \<in> set points \<and> hi \<in> set points
           \<and> (\<forall>p \<in> set points. cmp lo p \<le> 0 \<and> cmp p hi \<le> 0)"
proof -
  let ?S = "sort_points points"
  have "?S \<noteq> []"
    using assms(1) length_sort_points [of points] by auto
  then have "hd ?S \<in> set points" "last ?S \<in> set points"
    using hd_in_set [of ?S] last_in_set [of ?S] by (simp_all add: set_sort_points)
  with getConvexHull_collinear_ends [OF assms(1) assms(3)] show ?thesis
    using hd_sort_points_least last_sort_points_greatest by blast
qed

theorem getConvexHull_collinear_witness:
  "3 \<le> length [\<lparr>x = 2, y = 4\<rparr>, \<lparr>x = 0, y = 0\<rparr>, \<lparr>x = 3, y = 6\<rparr>, \<lparr>x = 1, y = 2\<rparr>, \<lparr>x = 1, y = 2\<rparr>]
   \<and> list_all inExactRange [\<lparr>x = 2, y = 4\<rparr>, \<lparr>x = 0, y = 0\<rparr>, \<lparr>x = 3, y = 6\<rparr>, \<lparr>x = 1, y = 2\<rparr>, \<lparr>x = 1, y = 2\<rparr>]
   \<and> list_all (\<lambda>a. list_all (\<lambda>b. list_all (\<lambda>c. cross a b c = 0)
         [\<lparr>x = 2, y = 4\<rparr>, \<lparr>x = 0, y = 0\<rparr>, \<lparr>x = 3, y = 6\<rparr>, \<lparr>x = 1, y = 2\<rparr>, \<lparr>x = 1, y = 2\<rparr>])
         [\<lparr>x = 2, y = 4\<rparr>, \<lparr>x = 0, y = 0\<rparr>, \<lparr>x = 3, y = 6\<rparr>, \<lparr>x = 1, y = 2\<rparr>, \<lparr>x = 1, y = 2\<rparr>])
         [\<lparr>x = 2, y = 4\<rparr>, \<lparr>x = 0, y = 0\<rparr>, \<lparr>x = 3, y = 6\<rparr>, \<lparr>x = 1, y = 2\<rparr>, \<lparr>x = 1, y = 2\<rparr>]
   \<and> getConvexHull [\<lparr>x = 2, y = 4\<rparr>, \<lparr>x = 0, y = 0\<rparr>, \<lparr>x = 3, y = 6\<rparr>, \<lparr>x = 1, y = 2\<rparr>, \<lparr>x = 1, y = 2\<rparr>]
       = [\<lparr>x = 0, y = 0\<rparr>, \<lparr>x = 3, y = 6\<rparr>]"
proof -
  have len: "3 \<le> length [\<lparr>x = 2, y = 4\<rparr>, \<lparr>x = 0, y = 0\<rparr>, \<lparr>x = 3, y = 6\<rparr>, \<lparr>x = 1, y = 2\<rparr>, \<lparr>x = 1, y = 2\<rparr>]"
    by simp
  have rng: "list_all inExactRange [\<lparr>x = 2, y = 4\<rparr>, \<lparr>x = 0, y = 0\<rparr>, \<lparr>x = 3, y = 6\<rparr>, \<lparr>x = 1, y = 2\<rparr>, \<lparr>x = 1, y = 2\<rparr>]"
    by (simp add: inExactRange_def)
  have col: "\<forall>a \<in> set [\<lparr>x = 2, y = 4\<rparr>, \<lparr>x = 0, y = 0\<rparr>, \<lparr>x = 3, y = 6\<rparr>, \<lparr>x = 1, y = 2\<rparr>, \<lparr>x = 1, y = 2\<rparr>].
        \<forall>b \<in> set [\<lparr>x = 2, y = 4\<rparr>, \<lparr>x = 0, y = 0\<rparr>, \<lparr>x = 3, y = 6\<rparr>, \<lparr>x = 1, y = 2\<rparr>, \<lparr>x = 1, y = 2\<rparr>].
        \<forall>c \<in> set [\<lparr>x = 2, y = 4\<rparr>, \<lparr>x = 0, y = 0\<rparr>, \<lparr>x = 3, y = 6\<rparr>, \<lparr>x = 1, y = 2\<rparr>, \<lparr>x = 1, y = 2\<rparr>].
        cross a b c = 0"
    by (simp add: cross_def)
  from getConvexHull_collinear [OF len rng col] obtain lo hi where
    h: "getConvexHull [\<lparr>x = 2, y = 4\<rparr>, \<lparr>x = 0, y = 0\<rparr>, \<lparr>x = 3, y = 6\<rparr>, \<lparr>x = 1, y = 2\<rparr>, \<lparr>x = 1, y = 2\<rparr>] = [lo, hi]"
    and lo: "cmp lo \<lparr>x = 0, y = 0\<rparr> \<le> 0" "lo \<in> set [\<lparr>x = 2, y = 4\<rparr>, \<lparr>x = 0, y = 0\<rparr>, \<lparr>x = 3, y = 6\<rparr>, \<lparr>x = 1, y = 2\<rparr>, \<lparr>x = 1, y = 2\<rparr>]"
    and hi: "cmp \<lparr>x = 3, y = 6\<rparr> hi \<le> 0" "hi \<in> set [\<lparr>x = 2, y = 4\<rparr>, \<lparr>x = 0, y = 0\<rparr>, \<lparr>x = 3, y = 6\<rparr>, \<lparr>x = 1, y = 2\<rparr>, \<lparr>x = 1, y = 2\<rparr>]"
    by auto
  from lo have "lo = \<lparr>x = 0, y = 0\<rparr>" by (auto simp: cmp_def)
  moreover from hi have "hi = \<lparr>x = 3, y = 6\<rparr>" by (auto simp: cmp_def)
  moreover have "list_all (\<lambda>a. list_all (\<lambda>b. list_all (\<lambda>c. cross a b c = 0)
         [\<lparr>x = 2, y = 4\<rparr>, \<lparr>x = 0, y = 0\<rparr>, \<lparr>x = 3, y = 6\<rparr>, \<lparr>x = 1, y = 2\<rparr>, \<lparr>x = 1, y = 2\<rparr>])
         [\<lparr>x = 2, y = 4\<rparr>, \<lparr>x = 0, y = 0\<rparr>, \<lparr>x = 3, y = 6\<rparr>, \<lparr>x = 1, y = 2\<rparr>, \<lparr>x = 1, y = 2\<rparr>])
         [\<lparr>x = 2, y = 4\<rparr>, \<lparr>x = 0, y = 0\<rparr>, \<lparr>x = 3, y = 6\<rparr>, \<lparr>x = 1, y = 2\<rparr>, \<lparr>x = 1, y = 2\<rparr>]"
    by (simp add: cross_def)
  ultimately show ?thesis using h len rng by blast
qed

section \<open>A square and its centre\<close>

lemma pop_while_3 [simp]:
  "pop_while [a, b, c] p = (if cross b c p \<le> 0 then pop_while [a, b] p else [a, b, c])"
  using pop_while_snoc2 [of "[a]" b c p] by simp

lemma pop_while_4 [simp]:
  "pop_while [a, b, c, d] p = (if cross c d p \<le> 0 then pop_while [a, b, c] p else [a, b, c, d])"
  using pop_while_snoc2 [of "[a, b]" c d p] by simp

lemma cross_squarePoint:
  "cross (squarePoint cx cy u v a1 b1) (squarePoint cx cy u v a2 b2) (squarePoint cx cy u v a3 b3)
     = ((a2 - a1) * (b3 - b1) - (b2 - b1) * (a3 - a1)) * (u * u + v * v)"
  by (simp add: cross_def squarePoint_def algebra_simps)

lemma cmp_squarePoint:
  "cmp (squarePoint cx cy u v a1 b1) (squarePoint cx cy u v a2 b2)
     = (if a1 * u - b1 * v = a2 * u - b2 * v then (a1 * v + b1 * u) - (a2 * v + b2 * u)
        else (a1 * u - b1 * v) - (a2 * u - b2 * v))"
  by (simp add: cmp_def squarePoint_def)

lemma squarePoint_eq_iff:
  "squarePoint cx cy u v a1 b1 = squarePoint cx cy u v a2 b2
     \<longleftrightarrow> a1 * u - b1 * v = a2 * u - b2 * v \<and> a1 * v + b1 * u = a2 * v + b2 * u"
  by (simp add: squarePoint_def)

lemma norm_pos: "(u, v) \<noteq> (0, 0) \<Longrightarrow> 0 < u * u + v * (v :: int)"
  by (simp add: sum_squares_gt_zero_iff)

lemma sort_square_canonical:
  assumes "0 < u" "0 \<le> v"
  shows "sort_points [squarePoint cx cy u v 1 0, squarePoint cx cy u v 0 1, squarePoint cx cy u v (-1) 0,
           squarePoint cx cy u v 0 (-1), squarePoint cx cy u v 0 0]
     = (if v = 0 then [squarePoint cx cy u v (-1) 0, squarePoint cx cy u v 0 (-1), squarePoint cx cy u v 0 0,
                       squarePoint cx cy u v 0 1, squarePoint cx cy u v 1 0]
        else if v \<le> u then [squarePoint cx cy u v (-1) 0, squarePoint cx cy u v 0 1, squarePoint cx cy u v 0 0,
                       squarePoint cx cy u v 0 (-1), squarePoint cx cy u v 1 0]
        else [squarePoint cx cy u v 0 1, squarePoint cx cy u v (-1) 0, squarePoint cx cy u v 0 0,
                       squarePoint cx cy u v 1 0, squarePoint cx cy u v 0 (-1)])"
  using assms by (simp add: sort_points_def cmp_squarePoint)

lemma cross_squarePoint_nonpos:
  assumes "0 < u * u + v * v"
  shows "cross (squarePoint cx cy u v a1 b1) (squarePoint cx cy u v a2 b2) (squarePoint cx cy u v a3 b3) \<le> 0
     \<longleftrightarrow> (a2 - a1) * (b3 - b1) - (b2 - b1) * (a3 - a1) \<le> 0"
  unfolding cross_squarePoint using assms by (simp add: mult_le_0_iff)

lemma hull_square_canonical:
  assumes "0 < u" "0 \<le> v" 
    and "mset points = mset [squarePoint cx cy u v 1 0, squarePoint cx cy u v 0 1,
           squarePoint cx cy u v (-1) 0, squarePoint cx cy u v 0 (-1), squarePoint cx cy u v 0 0]"
  shows "getConvexHull points
     = (if v \<le> u then [squarePoint cx cy u v (-1) 0, squarePoint cx cy u v 0 (-1),
                        squarePoint cx cy u v 1 0, squarePoint cx cy u v 0 1]
        else [squarePoint cx cy u v 0 1, squarePoint cx cy u v (-1) 0,
              squarePoint cx cy u v 0 (-1), squarePoint cx cy u v 1 0])"
proof -
  have n: "0 < u * u + v * v" using assms(1) by (intro norm_pos) simp
  have len: "length points = 5"
    using arg_cong [OF assms(3), of size] by simp
  have srt: "sort_points points = sort_points [squarePoint cx cy u v 1 0, squarePoint cx cy u v 0 1,
      squarePoint cx cy u v (-1) 0, squarePoint cx cy u v 0 (-1), squarePoint cx cy u v 0 0]"
    using assms(3) by (rule sort_points_mset_cong)
  have hull: "getConvexHull points = (let S = sort_points [squarePoint cx cy u v 1 0,
      squarePoint cx cy u v 0 1, squarePoint cx cy u v (-1) 0, squarePoint cx cy u v 0 (-1),
      squarePoint cx cy u v 0 0] in butlast (build_chain [] S) @ butlast (build_chain [] (rev S)))"
    using len by (simp add: getConvexHull_def Let_def srt)
  consider "v = 0" | "0 < v" "v \<le> u" | "u < v" using assms(2) by linarith
  then show ?thesis
  proof cases
    case 1
    have S: "sort_points [squarePoint cx cy u v 1 0, squarePoint cx cy u v 0 1,
        squarePoint cx cy u v (-1) 0, squarePoint cx cy u v 0 (-1), squarePoint cx cy u v 0 0]
      = [squarePoint cx cy u v (-1) 0, squarePoint cx cy u v 0 (-1), squarePoint cx cy u v 0 0,
         squarePoint cx cy u v 0 1, squarePoint cx cy u v 1 0]"
      unfolding sort_square_canonical [OF assms(1,2)] using 1 by (rule if_P)
    have "v \<le> u" using 1 assms(1) by simp
    then show ?thesis
      unfolding hull S Let_def by (simp add: cross_squarePoint_nonpos [OF n])
  next
    case 2
    have S: "sort_points [squarePoint cx cy u v 1 0, squarePoint cx cy u v 0 1,
        squarePoint cx cy u v (-1) 0, squarePoint cx cy u v 0 (-1), squarePoint cx cy u v 0 0]
      = [squarePoint cx cy u v (-1) 0, squarePoint cx cy u v 0 1, squarePoint cx cy u v 0 0,
         squarePoint cx cy u v 0 (-1), squarePoint cx cy u v 1 0]"
      unfolding sort_square_canonical [OF assms(1,2)] using 2 by simp
    from 2(2) show ?thesis
      unfolding hull S Let_def by (simp add: cross_squarePoint_nonpos [OF n])
  next
    case 3
    have S: "sort_points [squarePoint cx cy u v 1 0, squarePoint cx cy u v 0 1,
        squarePoint cx cy u v (-1) 0, squarePoint cx cy u v 0 (-1), squarePoint cx cy u v 0 0]
      = [squarePoint cx cy u v 0 1, squarePoint cx cy u v (-1) 0, squarePoint cx cy u v 0 0,
         squarePoint cx cy u v 1 0, squarePoint cx cy u v 0 (-1)]"
      unfolding sort_square_canonical [OF assms(1,2)] using 3 assms(1) by simp
    from 3 have "\<not> v \<le> u" by simp
    then show ?thesis
      unfolding hull S Let_def by (simp add: cross_squarePoint_nonpos [OF n])
  qed
qed

lemma squarePoint_quarter_turns:
  "squarePoint cx cy v (- u) a b = squarePoint cx cy u v b (- a)"
  "squarePoint cx cy (- u) (- v) a b = squarePoint cx cy u v (- a) (- b)"
  "squarePoint cx cy (- v) u a b = squarePoint cx cy u v (- b) a"
  by (simp_all add: squarePoint_def)

lemma hull_square_corners:
  assumes "u \<noteq> 0 \<or> v \<noteq> 0"
    and "mset points = mset [squarePoint cx cy u v 1 0, squarePoint cx cy u v 0 1,
           squarePoint cx cy u v (-1) 0, squarePoint cx cy u v 0 (-1), squarePoint cx cy u v 0 0]"
  shows "getConvexHull points \<in>
    {[squarePoint cx cy u v 1 0, squarePoint cx cy u v 0 1, squarePoint cx cy u v (-1) 0, squarePoint cx cy u v 0 (-1)],
     [squarePoint cx cy u v 0 1, squarePoint cx cy u v (-1) 0, squarePoint cx cy u v 0 (-1), squarePoint cx cy u v 1 0],
     [squarePoint cx cy u v (-1) 0, squarePoint cx cy u v 0 (-1), squarePoint cx cy u v 1 0, squarePoint cx cy u v 0 1],
     [squarePoint cx cy u v 0 (-1), squarePoint cx cy u v 1 0, squarePoint cx cy u v 0 1, squarePoint cx cy u v (-1) 0]}"
proof -
  consider "0 < u" "0 \<le> v" | "u \<le> 0" "0 < v" | "u < 0" "v \<le> 0" | "0 \<le> u" "v < 0"
    using assms(1) by linarith
  then show ?thesis
  proof cases
    case 1
    from hull_square_canonical [OF 1 assms(2)] show ?thesis
      by (simp split: if_splits)
  next
    case 2
    have "0 < v" "0 \<le> - u" using 2 by simp_all
    moreover have "mset points = mset [squarePoint cx cy v (- u) 1 0, squarePoint cx cy v (- u) 0 1,
           squarePoint cx cy v (- u) (-1) 0, squarePoint cx cy v (- u) 0 (-1), squarePoint cx cy v (- u) 0 0]"
      unfolding assms(2) by (simp add: squarePoint_quarter_turns)
    ultimately have "getConvexHull points
     = (if - u \<le> v then [squarePoint cx cy v (- u) (-1) 0, squarePoint cx cy v (- u) 0 (-1),
                        squarePoint cx cy v (- u) 1 0, squarePoint cx cy v (- u) 0 1]
        else [squarePoint cx cy v (- u) 0 1, squarePoint cx cy v (- u) (-1) 0,
              squarePoint cx cy v (- u) 0 (-1), squarePoint cx cy v (- u) 1 0])"
      by (rule hull_square_canonical)
    then show ?thesis
      by (simp add: squarePoint_quarter_turns split: if_splits)
  next
    case 3
    have "0 < - u" "0 \<le> - v" using 3 by simp_all
    moreover have "mset points = mset [squarePoint cx cy (- u) (- v) 1 0, squarePoint cx cy (- u) (- v) 0 1,
           squarePoint cx cy (- u) (- v) (-1) 0, squarePoint cx cy (- u) (- v) 0 (-1), squarePoint cx cy (- u) (- v) 0 0]"
      unfolding assms(2) by (simp add: squarePoint_quarter_turns)
    ultimately have "getConvexHull points
     = (if - v \<le> - u then [squarePoint cx cy (- u) (- v) (-1) 0, squarePoint cx cy (- u) (- v) 0 (-1),
                        squarePoint cx cy (- u) (- v) 1 0, squarePoint cx cy (- u) (- v) 0 1]
        else [squarePoint cx cy (- u) (- v) 0 1, squarePoint cx cy (- u) (- v) (-1) 0,
              squarePoint cx cy (- u) (- v) 0 (-1), squarePoint cx cy (- u) (- v) 1 0])"
      by (rule hull_square_canonical)
    then show ?thesis
      by (simp add: squarePoint_quarter_turns split: if_splits)
  next
    case 4
    have "0 < - v" "0 \<le> u" using 4 by simp_all
    moreover have "mset points = mset [squarePoint cx cy (- v) u 1 0, squarePoint cx cy (- v) u 0 1,
           squarePoint cx cy (- v) u (-1) 0, squarePoint cx cy (- v) u 0 (-1), squarePoint cx cy (- v) u 0 0]"
      unfolding assms(2) by (simp add: squarePoint_quarter_turns)
    ultimately have "getConvexHull points
     = (if u \<le> - v then [squarePoint cx cy (- v) u (-1) 0, squarePoint cx cy (- v) u 0 (-1),
                        squarePoint cx cy (- v) u 1 0, squarePoint cx cy (- v) u 0 1]
        else [squarePoint cx cy (- v) u 0 1, squarePoint cx cy (- v) u (-1) 0,
              squarePoint cx cy (- v) u 0 (-1), squarePoint cx cy (- v) u 1 0])"
      by (rule hull_square_canonical)
    then show ?thesis
      by (simp add: squarePoint_quarter_turns split: if_splits)
  qed
qed

lemma cross_squarePoint_pos:
  assumes "0 < u * u + v * v"
  shows "0 < cross (squarePoint cx cy u v a1 b1) (squarePoint cx cy u v a2 b2) (squarePoint cx cy u v a3 b3)
     \<longleftrightarrow> 0 < (a2 - a1) * (b3 - b1) - (b2 - b1) * (a3 - a1)"
  unfolding cross_squarePoint using assms by (simp add: zero_less_mult_iff)

lemma squarePoint_eq:
  assumes "0 < u * u + v * v"
  shows "squarePoint cx cy u v a1 b1 = squarePoint cx cy u v a2 b2 \<longleftrightarrow> a1 = a2 \<and> b1 = b2"
proof
  assume "squarePoint cx cy u v a1 b1 = squarePoint cx cy u v a2 b2"
  then have e: "(a1 - a2) * u = (b1 - b2) * v" "(a1 - a2) * v = - (b1 - b2) * u"
    by (simp_all add: squarePoint_def algebra_simps)
  have "(a1 - a2) * (u * u + v * v) = ((a1 - a2) * u) * u + ((a1 - a2) * v) * v"
    by (simp add: algebra_simps)
  also have "\<dots> = 0" unfolding e by (simp add: algebra_simps)
  finally have a: "a1 = a2" using assms by simp
  have "(b1 - b2) * (u * u + v * v) = ((b1 - b2) * v) * v - (- (b1 - b2) * u) * u"
    by (simp add: algebra_simps)
  also have "\<dots> = 0" unfolding e [symmetric] by (simp add: algebra_simps)
  finally have "b1 = b2" using assms by simp
  with a show "a1 = a2 \<and> b1 = b2" by simp
qed simp

lemma counterClockwise_4:
  "counterClockwise [a, b, c, d]
     \<longleftrightarrow> 0 < cross a b c \<and> 0 < cross b c d \<and> 0 < cross c d a \<and> 0 < cross d a b"
proof -
  have "[0..<length [a, b, c, d]] = [0, 1, 2, 3]"
    by (simp add: upt_rec)
  then show ?thesis
    by (simp add: counterClockwise_def)
qed

lemma rotations_4:
  "rotate 0 [a, b, c, d] = [a, b, c, d]" "rotate 1 [a, b, c, d] = [b, c, d, a]"
  "rotate 2 [a, b, c, d] = [c, d, a, b]" "rotate 3 [a, b, c, d] = [d, a, b, c]"
  by (simp_all add: rotate_def eval_nat_numeral)

text \<open>
  Claim C6. Let the input hold, in any order, the four corners of a square with centre
  \<open>(cx, cy)\<close> and half diagonal \<open>(u, v)\<close>, not both \<open>0\<close>, and the centre, all with
  coordinates in the range where the arithmetic of the source is exact. The result is
  the list of the four corners in counter-clockwise order, started at one of them: it
  winds counter-clockwise, has no repeated vertex, and does not hold the centre.
\<close>

theorem getConvexHull_square:
  assumes "(u, v) \<noteq> (0, 0)"
    and "list_all inExactRange points"
    and "mset points = mset [\<lparr>x = cx + u, y = cy + v\<rparr>, \<lparr>x = cx - v, y = cy + u\<rparr>,
           \<lparr>x = cx - u, y = cy - v\<rparr>, \<lparr>x = cx + v, y = cy - u\<rparr>, \<lparr>x = cx, y = cy\<rparr>]"
  shows "(\<exists>n. getConvexHull points = rotate n [\<lparr>x = cx + u, y = cy + v\<rparr>, \<lparr>x = cx - v, y = cy + u\<rparr>,
                                               \<lparr>x = cx - u, y = cy - v\<rparr>, \<lparr>x = cx + v, y = cy - u\<rparr>])
     \<and> counterClockwise (getConvexHull points)
     \<and> distinct (getConvexHull points)
     \<and> \<lparr>x = cx, y = cy\<rparr> \<notin> set (getConvexHull points)"
proof -
  define A where "A = squarePoint cx cy u v 1 0"
  define B where "B = squarePoint cx cy u v 0 1"
  define C where "C = squarePoint cx cy u v (-1) 0"
  define D where "D = squarePoint cx cy u v 0 (-1)"
  define M where "M = squarePoint cx cy u v 0 0"
  have recs: "\<lparr>x = cx + u, y = cy + v\<rparr> = A" "\<lparr>x = cx - v, y = cy + u\<rparr> = B"
    "\<lparr>x = cx - u, y = cy - v\<rparr> = C" "\<lparr>x = cx + v, y = cy - u\<rparr> = D" "\<lparr>x = cx, y = cy\<rparr> = M"
    by (simp_all add: A_def B_def C_def D_def M_def squarePoint_def)
  have nz: "u \<noteq> 0 \<or> v \<noteq> 0"
    using assms(1) by simp
  have n: "0 < u * u + v * v"
    using nz by (simp add: sum_squares_gt_zero_iff)
  have ccw: "counterClockwise [A, B, C, D]" "counterClockwise [B, C, D, A]"
    "counterClockwise [C, D, A, B]" "counterClockwise [D, A, B, C]"
    by (simp_all add: counterClockwise_4 A_def B_def C_def D_def cross_squarePoint_pos [OF n])
  have dist: "distinct [A, B, C, D]" "M \<notin> set [A, B, C, D]"
    by (simp_all add: A_def B_def C_def D_def M_def squarePoint_eq [OF n])
  have "getConvexHull points \<in> {[A, B, C, D], [B, C, D, A], [C, D, A, B], [D, A, B, C]}"
    using hull_square_corners [OF nz, of points cx cy] assms(3)
    unfolding recs A_def B_def C_def D_def M_def by simp
  then consider "getConvexHull points = rotate 0 [A, B, C, D]"
    | "getConvexHull points = rotate 1 [A, B, C, D]"
    | "getConvexHull points = rotate 2 [A, B, C, D]"
    | "getConvexHull points = rotate 3 [A, B, C, D]"
    by (auto simp: rotations_4)
  then have "(\<exists>n. getConvexHull points = rotate n [A, B, C, D])
     \<and> counterClockwise (getConvexHull points)
     \<and> distinct (getConvexHull points) \<and> M \<notin> set (getConvexHull points)"
  proof cases
    case 1
    then have "\<exists>n. getConvexHull points = rotate n [A, B, C, D]" by blast
    moreover have "counterClockwise (getConvexHull points) \<and> distinct (getConvexHull points)
        \<and> M \<notin> set (getConvexHull points)"
      using 1 ccw dist by (auto simp: rotations_4)
    ultimately show ?thesis by blast
  next
    case 2
    then have "\<exists>n. getConvexHull points = rotate n [A, B, C, D]" by blast
    moreover have "counterClockwise (getConvexHull points) \<and> distinct (getConvexHull points)
        \<and> M \<notin> set (getConvexHull points)"
      using 2 ccw dist by (auto simp: rotations_4)
    ultimately show ?thesis by blast
  next
    case 3
    then have "\<exists>n. getConvexHull points = rotate n [A, B, C, D]" by blast
    moreover have "counterClockwise (getConvexHull points) \<and> distinct (getConvexHull points)
        \<and> M \<notin> set (getConvexHull points)"
      using 3 ccw dist by (auto simp: rotations_4)
    ultimately show ?thesis by blast
  next
    case 4
    then have "\<exists>n. getConvexHull points = rotate n [A, B, C, D]" by blast
    moreover have "counterClockwise (getConvexHull points) \<and> distinct (getConvexHull points)
        \<and> M \<notin> set (getConvexHull points)"
      using 4 ccw dist by (auto simp: rotations_4)
    ultimately show ?thesis by blast
  qed
  then show ?thesis unfolding recs .
qed

text \<open>
  The square with corners \<open>(0, 0)\<close>, \<open>(2, 0)\<close>, \<open>(2, 2)\<close>, \<open>(0, 2)\<close> and centre \<open>(1, 1)\<close>,
  and the tilted square around \<open>(3, 3)\<close> with half diagonal \<open>(2, 1)\<close>.
\<close>

theorem getConvexHull_square_witness:
  "(1 :: int, 1 :: int) \<noteq> (0, 0)
   \<and> list_all inExactRange [\<lparr>x = 1, y = 1\<rparr>, \<lparr>x = 2, y = 0\<rparr>, \<lparr>x = 0, y = 2\<rparr>, \<lparr>x = 2, y = 2\<rparr>, \<lparr>x = 0, y = 0\<rparr>]
   \<and> mset [\<lparr>x = 1, y = 1\<rparr>, \<lparr>x = 2, y = 0\<rparr>, \<lparr>x = 0, y = 2\<rparr>, \<lparr>x = 2, y = 2\<rparr>, \<lparr>x = 0, y = 0\<rparr>]
       = mset [\<lparr>x = 1 + 1, y = 1 + 1\<rparr>, \<lparr>x = 1 - 1, y = 1 + 1\<rparr>, \<lparr>x = 1 - 1, y = 1 - 1\<rparr>,
               \<lparr>x = 1 + 1, y = 1 - 1\<rparr>, \<lparr>x = 1, y = 1\<rparr>]
   \<and> getConvexHull [\<lparr>x = 1, y = 1\<rparr>, \<lparr>x = 2, y = 0\<rparr>, \<lparr>x = 0, y = 2\<rparr>, \<lparr>x = 2, y = 2\<rparr>, \<lparr>x = 0, y = 0\<rparr>]
       = [\<lparr>x = 0, y = 0\<rparr>, \<lparr>x = 2, y = 0\<rparr>, \<lparr>x = 2, y = 2\<rparr>, \<lparr>x = 0, y = 2\<rparr>]
   \<and> counterClockwise (getConvexHull [\<lparr>x = 1, y = 1\<rparr>, \<lparr>x = 2, y = 0\<rparr>, \<lparr>x = 0, y = 2\<rparr>, \<lparr>x = 2, y = 2\<rparr>, \<lparr>x = 0, y = 0\<rparr>])
   \<and> (2 :: int, 1 :: int) \<noteq> (0, 0)
   \<and> list_all inExactRange [\<lparr>x = 4, y = 1\<rparr>, \<lparr>x = 3, y = 3\<rparr>, \<lparr>x = 5, y = 4\<rparr>, \<lparr>x = 1, y = 2\<rparr>, \<lparr>x = 2, y = 5\<rparr>]
   \<and> mset [\<lparr>x = 4, y = 1\<rparr>, \<lparr>x = 3, y = 3\<rparr>, \<lparr>x = 5, y = 4\<rparr>, \<lparr>x = 1, y = 2\<rparr>, \<lparr>x = 2, y = 5\<rparr>]
       = mset [\<lparr>x = 3 + 2, y = 3 + 1\<rparr>, \<lparr>x = 3 - 1, y = 3 + 2\<rparr>, \<lparr>x = 3 - 2, y = 3 - 1\<rparr>,
               \<lparr>x = 3 + 1, y = 3 - 2\<rparr>, \<lparr>x = 3, y = 3\<rparr>]
   \<and> getConvexHull [\<lparr>x = 4, y = 1\<rparr>, \<lparr>x = 3, y = 3\<rparr>, \<lparr>x = 5, y = 4\<rparr>, \<lparr>x = 1, y = 2\<rparr>, \<lparr>x = 2, y = 5\<rparr>]
       = [\<lparr>x = 1, y = 2\<rparr>, \<lparr>x = 4, y = 1\<rparr>, \<lparr>x = 5, y = 4\<rparr>, \<lparr>x = 2, y = 5\<rparr>]
   \<and> counterClockwise (getConvexHull [\<lparr>x = 4, y = 1\<rparr>, \<lparr>x = 3, y = 3\<rparr>, \<lparr>x = 5, y = 4\<rparr>, \<lparr>x = 1, y = 2\<rparr>, \<lparr>x = 2, y = 5\<rparr>])"
proof -
  have h1: "(1 :: int, 1 :: int) \<noteq> (0, 0)" by simp
  have r1: "list_all inExactRange [\<lparr>x = 1, y = 1\<rparr>, \<lparr>x = 2, y = 0\<rparr>, \<lparr>x = 0, y = 2\<rparr>, \<lparr>x = 2, y = 2\<rparr>, \<lparr>x = 0, y = 0\<rparr>]"
    by (simp add: inExactRange_def)
  have m1: "mset [\<lparr>x = 1, y = 1\<rparr>, \<lparr>x = 2, y = 0\<rparr>, \<lparr>x = 0, y = 2\<rparr>, \<lparr>x = 2, y = 2\<rparr>, \<lparr>x = 0, y = 0\<rparr>]
       = mset [\<lparr>x = 1 + 1, y = 1 + 1\<rparr>, \<lparr>x = 1 - 1, y = 1 + 1\<rparr>, \<lparr>x = 1 - 1, y = 1 - 1\<rparr>,
               \<lparr>x = 1 + 1, y = 1 - 1\<rparr>, \<lparr>x = 1, y = 1\<rparr>]"
    by simp
  have e1: "getConvexHull [\<lparr>x = 1, y = 1\<rparr>, \<lparr>x = 2, y = 0\<rparr>, \<lparr>x = 0, y = 2\<rparr>, \<lparr>x = 2, y = 2\<rparr>, \<lparr>x = 0, y = 0\<rparr>]
       = [\<lparr>x = 0, y = 0\<rparr>, \<lparr>x = 2, y = 0\<rparr>, \<lparr>x = 2, y = 2\<rparr>, \<lparr>x = 0, y = 2\<rparr>]"
    by (simp add: getConvexHull_def sort_points_def cmp_def cross_def)
  have h2: "(2 :: int, 1 :: int) \<noteq> (0, 0)" by simp
  have r2: "list_all inExactRange [\<lparr>x = 4, y = 1\<rparr>, \<lparr>x = 3, y = 3\<rparr>, \<lparr>x = 5, y = 4\<rparr>, \<lparr>x = 1, y = 2\<rparr>, \<lparr>x = 2, y = 5\<rparr>]"
    by (simp add: inExactRange_def)
  have m2: "mset [\<lparr>x = 4, y = 1\<rparr>, \<lparr>x = 3, y = 3\<rparr>, \<lparr>x = 5, y = 4\<rparr>, \<lparr>x = 1, y = 2\<rparr>, \<lparr>x = 2, y = 5\<rparr>]
       = mset [\<lparr>x = 3 + 2, y = 3 + 1\<rparr>, \<lparr>x = 3 - 1, y = 3 + 2\<rparr>, \<lparr>x = 3 - 2, y = 3 - 1\<rparr>,
               \<lparr>x = 3 + 1, y = 3 - 2\<rparr>, \<lparr>x = 3, y = 3\<rparr>]"
    by simp
  have e2: "getConvexHull [\<lparr>x = 4, y = 1\<rparr>, \<lparr>x = 3, y = 3\<rparr>, \<lparr>x = 5, y = 4\<rparr>, \<lparr>x = 1, y = 2\<rparr>, \<lparr>x = 2, y = 5\<rparr>]
       = [\<lparr>x = 1, y = 2\<rparr>, \<lparr>x = 4, y = 1\<rparr>, \<lparr>x = 5, y = 4\<rparr>, \<lparr>x = 2, y = 5\<rparr>]"
    by (simp add: getConvexHull_def sort_points_def cmp_def cross_def)
  from getConvexHull_square [OF h1 r1 m1] getConvexHull_square [OF h2 r2 m2]
    h1 r1 m1 e1 h2 r2 m2 e2
  show ?thesis by blast
qed

section \<open>Turns of vectors\<close>

lemma turn_identity:
  "(u1 * w2 - u2 * w1) * v1 = (u1 * v2 - u2 * v1) * w1 + (v1 * w2 - v2 * w1) * (u1 :: int)"
  by (simp add: algebra_simps)

lemma turn_trans:
  fixes u1 u2 v1 v2 w1 w2 :: int
  assumes v: "lexpos v1 v2" and u: "lexpos u1 u2 \<or> (u1 = 0 \<and> u2 = 0)"
    and w: "lexpos w1 w2 \<or> (w1 = 0 \<and> w2 = 0)"
    and uv: "0 \<le> u1 * v2 - u2 * v1" and vw: "0 \<le> v1 * w2 - v2 * w1"
  shows "0 \<le> u1 * w2 - u2 * w1"
proof (cases "0 < v1")
  case True
  have "0 \<le> u1" "0 \<le> w1" using u w by (auto simp: lexpos_def)
  then have "0 \<le> (u1 * v2 - u2 * v1) * w1 + (v1 * w2 - v2 * w1) * u1"
    using uv vw by simp
  then have "0 \<le> (u1 * w2 - u2 * w1) * v1"
    using turn_identity [of u1 w2 u2 w1 v1 v2] by simp
  with True show ?thesis by (simp add: zero_le_mult_iff)
next
  case False
  then have v0: "v1 = 0" "0 < v2" using v by (auto simp: lexpos_def)
  from vw v0 have "v2 * w1 \<le> 0" by simp
  with v0 have "w1 \<le> 0" by (simp add: mult_le_0_iff)
  with w have w0: "w1 = 0" "0 \<le> w2" by (auto simp: lexpos_def)
  have "0 \<le> u1" using u by (auto simp: lexpos_def)
  with w0 show ?thesis by simp
qed

lemma turn_trans_strict:
  fixes u1 u2 v1 v2 w1 w2 :: int
  assumes v: "lexpos v1 v2" and u: "lexpos u1 u2" and w: "lexpos w1 w2"
    and uv: "0 \<le> u1 * v2 - u2 * v1" and vw: "0 \<le> v1 * w2 - v2 * w1"
    and strict: "0 < u1 * v2 - u2 * v1 \<or> 0 < v1 * w2 - v2 * w1"
  shows "0 < u1 * w2 - u2 * w1"
proof -
  have ge: "0 \<le> u1 * w2 - u2 * w1"
    using turn_trans [OF v _ _ uv vw] u w by blast
  have "u1 * w2 - u2 * w1 \<noteq> 0"
  proof
    assume z: "u1 * w2 - u2 * w1 = 0"
    show False
    proof (cases "0 < v1")
      case True
      from z have sum0: "(u1 * v2 - u2 * v1) * w1 + (v1 * w2 - v2 * w1) * u1 = 0"
        using turn_identity [of u1 w2 u2 w1 v1 v2] by simp
      have n: "0 \<le> u1" "0 \<le> w1" using u w by (auto simp: lexpos_def)
      have "0 \<le> (u1 * v2 - u2 * v1) * w1" "0 \<le> (v1 * w2 - v2 * w1) * u1"
        using uv vw n by simp_all
      with sum0 have p: "(u1 * v2 - u2 * v1) * w1 = 0" "(v1 * w2 - v2 * w1) * u1 = 0"
        by linarith+
      from strict show False
      proof
        assume s: "0 < u1 * v2 - u2 * v1"
        with p(1) have w1: "w1 = 0" by simp
        with w have w2: "0 < w2" by (simp add: lexpos_def)
        from z w1 w2 have "u1 = 0" by simp
        with s True have "u2 < 0" by (simp add: mult_less_0_iff)
        with \<open>u1 = 0\<close> u show False by (simp add: lexpos_def)
      next
        assume s: "0 < v1 * w2 - v2 * w1"
        with p(2) have u1: "u1 = 0" by simp
        with u have u2: "0 < u2" by (simp add: lexpos_def)
        from z u1 u2 have "w1 = 0" by simp
        with s True have "0 < w2" by (simp add: zero_less_mult_iff)
        from uv u1 have "u2 * v1 \<le> 0" by simp
        with u2 True show False by (simp add: mult_le_0_iff)
      qed
    next
      case False
      then have v0: "v1 = 0" "0 < v2" using v by (auto simp: lexpos_def)
      from vw v0 have "v2 * w1 \<le> 0" by simp
      with v0 have "w1 \<le> 0" by (simp add: mult_le_0_iff)
      with w have w0: "w1 = 0" "0 < w2" by (auto simp: lexpos_def)
      from strict v0 w0 have "0 < u1 * v2" by simp
      with v0 have "0 < u1" by (simp add: zero_less_mult_iff)
      with z w0 show False by simp
    qed
  qed
  with ge show ?thesis by simp
qed

lemma lt_lexpos: "cmp a b < 0 \<longleftrightarrow> lexpos (x b - x a) (y b - y a)"
  by (auto simp: cmp_def lexpos_def)

lemma le_lexpos: "cmp a b \<le> 0 \<longleftrightarrow> lexpos (x b - x a) (y b - y a) \<or> (x b - x a = 0 \<and> y b - y a = 0)"
  by (auto simp: cmp_def lexpos_def)

lemma cross_as_vectors:
  "cross r s t = (x s - x r) * (y t - y s) - (y s - y r) * (x t - x s)"
  "cross r s a = (x s - x a) * (y s - y r) - (y s - y a) * (x s - x r)"
  "- cross q t p = (x p - x q) * (y t - y q) - (y p - y q) * (x t - x q)"
  "- cross a p s = (x s - x a) * (y p - y s) - (y s - y a) * (x p - x s)"
  by (simp_all add: cross_def algebra_simps)

lemma new_edge_support:
  assumes "cmp q t < 0" "cmp q z \<le> 0" "cmp q p \<le> 0" "0 \<le> cross q t z" "cross q t p \<le> 0"
  shows "0 \<le> cross q p z"
proof -
  have v: "lexpos (x t - x q) (y t - y q)" using assms(1) unfolding lt_lexpos .
  have u: "lexpos (x p - x q) (y p - y q) \<or> (x p - x q = 0 \<and> y p - y q = 0)"
    using assms(3) unfolding le_lexpos .
  have w: "lexpos (x z - x q) (y z - y q) \<or> (x z - x q = 0 \<and> y z - y q = 0)"
    using assms(2) unfolding le_lexpos .
  have "0 \<le> - cross q t p" using assms(5) by simp
  then have uv: "0 \<le> (x p - x q) * (y t - y q) - (y p - y q) * (x t - x q)"
    unfolding cross_as_vectors(3) .
  have vw: "0 \<le> (x t - x q) * (y z - y q) - (y t - y q) * (x z - x q)"
    using assms(4) unfolding cross_def .
  from turn_trans [OF v u w uv vw] show ?thesis unfolding cross_def .
qed

lemma deeper_edge_turn:
  assumes "cmp r s < 0" "cmp s t < 0" "cmp s p < 0" "0 < cross r s t" "0 < cross s t p"
  shows "0 < cross r s p"
proof -
  have u: "lexpos (x s - x r) (y s - y r)" using assms(1) unfolding lt_lexpos .
  have v: "lexpos (x t - x s) (y t - y s)" using assms(2) unfolding lt_lexpos .
  have w: "lexpos (x p - x s) (y p - y s)" using assms(3) unfolding lt_lexpos .
  have a: "0 < (x s - x r) * (y t - y s) - (y s - y r) * (x t - x s)"
    using assms(4) unfolding cross_as_vectors(1) .
  have b: "0 < (x t - x s) * (y p - y s) - (y t - y s) * (x p - x s)"
    using assms(5) unfolding cross_def .
  from a have a': "0 \<le> (x s - x r) * (y t - y s) - (y s - y r) * (x t - x s)" by (rule less_imp_le)
  from b have b': "0 \<le> (x t - x s) * (y p - y s) - (y t - y s) * (x p - x s)" by (rule less_imp_le)
  from turn_trans_strict [OF v u w a' b' disjI1 [OF a]]
  show ?thesis unfolding cross_as_vectors(1) .
qed

lemma survivor_below:
  assumes "cmp r s < 0" "cmp s p < 0" "cmp a s < 0" "0 < cross r s p" "0 \<le> cross r s a"
  shows "cross a p s < 0"
proof -
  have u: "lexpos (x s - x a) (y s - y a)" using assms(3) unfolding lt_lexpos .
  have v: "lexpos (x s - x r) (y s - y r)" using assms(1) unfolding lt_lexpos .
  have w: "lexpos (x p - x s) (y p - y s)" using assms(2) unfolding lt_lexpos .
  have a: "0 \<le> (x s - x a) * (y s - y r) - (y s - y a) * (x s - x r)"
    using assms(5) unfolding cross_as_vectors(2) .
  have b: "0 < (x s - x r) * (y p - y s) - (y s - y r) * (x p - x s)"
    using assms(4) unfolding cross_as_vectors(1) .
  from b have b': "0 \<le> (x s - x r) * (y p - y s) - (y s - y r) * (x p - x s)" by (rule less_imp_le)
  from turn_trans_strict [OF v u w a b' disjI2 [OF b]]
  have "0 < - cross a p s" unfolding cross_as_vectors(4) .
  then show ?thesis by simp
qed

section \<open>The invariant of the chain loop\<close>

lemma cmp_less_le_trans: "cmp a b < 0 \<Longrightarrow> cmp b c \<le> 0 \<Longrightarrow> cmp a c < 0"
  by (auto simp: cmp_def split: if_splits)

lemma cmp_le_less_trans: "cmp a b \<le> 0 \<Longrightarrow> cmp b c < 0 \<Longrightarrow> cmp a c < 0"
  by (auto simp: cmp_def split: if_splits)

lemma cmp_less_trans: "cmp a b < 0 \<Longrightarrow> cmp b c < 0 \<Longrightarrow> cmp a c < 0"
  by (auto simp: cmp_def split: if_splits)

lemma cmp_less_imp_le: "cmp a b < 0 \<Longrightarrow> cmp a b \<le> 0"
  by simp

lemma cmp_le_neq: "cmp a b \<le> 0 \<Longrightarrow> a \<noteq> b \<Longrightarrow> cmp a b < (0::int)"
proof (rule ccontr)
  assume "cmp a b \<le> 0" "a \<noteq> b" "\<not> cmp a b < 0"
  then have "cmp a b = 0" by simp
  then have "cmp b a \<le> 0" by (auto simp: cmp_def split: if_splits)
  with \<open>cmp a b \<le> 0\<close> have "a = b" by (rule cmp_antisym)
  with \<open>a \<noteq> b\<close> show False by simp
qed

lemma cmp_less_irrefl [simp]: "\<not> cmp a a < 0"
  by (simp add: cmp_def)

lemma cmp_less_asym: "cmp a b < 0 \<Longrightarrow> \<not> cmp b a \<le> 0"
  by (auto simp: cmp_def split: if_splits)

lemma cross_same [simp]: "cross a b b = 0" "cross a b a = 0" "cross a a b = 0"
  by (simp_all add: cross_def)

lemma cross_swap: "cross a c b = - cross a b c"
  by (simp add: cross_def algebra_simps)

lemma cross_cycle: "cross b c a = cross a b c"
  by (simp add: cross_def algebra_simps)

lemma successively_conj:
  "successively (\<lambda>a b. P a b \<and> Q a b) xs \<longleftrightarrow> successively P xs \<and> successively Q xs"
  by (induction P xs rule: successively.induct) auto

lemma successively_pred:
  "successively P xs \<Longrightarrow> b \<in> set (tl xs) \<Longrightarrow> \<exists>a \<in> set xs. P a b"
proof (induction P xs rule: successively.induct)
  case (3 P u v xs)
  then show ?case by (cases "b = v") auto
qed simp_all

lemma pop_while_spec_ex:
  "\<exists>popped. st = pop_while st p @ popped
     \<and> (st \<noteq> [] \<longrightarrow> pop_while st p \<noteq> [])
     \<and> (\<forall>us a b. pop_while st p = us @ [a, b] \<longrightarrow> 0 < cross a b p)
     \<and> (popped \<noteq> [] \<longrightarrow>
          successively (\<lambda>a b. cross a b p \<le> 0) (last (pop_while st p) # popped))"
proof (induction st rule: rev_induct)
  case Nil
  then show ?case by simp
next
  case (snoc b xs)
  show ?case
  proof (cases xs rule: rev_cases)
    case Nil
    then show ?thesis by simp
  next
    case (snoc us a)
    show ?thesis
    proof (cases "cross a b p \<le> 0")
      case False
      then have "pop_while (xs @ [b]) p = xs @ [b]"
        using pop_while_snoc2 [of us a b p] snoc by simp
      with False snoc show ?thesis by auto
    next
      case True
      then have eq: "pop_while (xs @ [b]) p = pop_while xs p"
        using pop_while_snoc2 [of us a b p] snoc by simp
      from snoc.IH obtain popped where
        p1: "xs = pop_while xs p @ popped" and
        p2: "xs \<noteq> [] \<longrightarrow> pop_while xs p \<noteq> []" and
        p3: "\<forall>us a b. pop_while xs p = us @ [a, b] \<longrightarrow> 0 < cross a b p" and
        p4: "popped \<noteq> [] \<longrightarrow>
          successively (\<lambda>a b. cross a b p \<le> 0) (last (pop_while xs p) # popped)"
        by blast
      have ne: "pop_while xs p \<noteq> []" using p2 snoc by simp
      have "successively (\<lambda>a b. cross a b p \<le> 0) (last (pop_while xs p) # popped @ [b])"
      proof (cases "popped = []")
        case True
        then have "last (pop_while xs p) = a" using p1 snoc by simp
        with True \<open>cross a b p \<le> 0\<close> show ?thesis by simp
      next
        case False
        then have "last popped = a" using p1 snoc by (metis last_appendR last_snoc)
        with False p4 \<open>cross a b p \<le> 0\<close> show ?thesis
          using successively_append_iff [of _ "last (pop_while xs p) # popped" "[b]"] by simp
      qed
      with p1 p2 p3 ne show ?thesis
        unfolding eq by (intro exI [of _ "popped @ [b]"]) simp
    qed
  qed
qed

lemma turns_to_p:
  assumes "sorted_wrt (\<lambda>a b. cmp a b < 0) ks"
    and "\<And>us a b c vs. ks = us @ [a, b, c] @ vs \<Longrightarrow> 0 < cross a b c"
    and "ks \<noteq> [] \<Longrightarrow> cmp (last ks) p < 0"
    and "\<And>us a b. ks = us @ [a, b] \<Longrightarrow> 0 < cross a b p"
  shows "successively (\<lambda>a b. 0 < cross a b p) ks"
  using assms
proof (induction ks rule: rev_induct)
  case Nil
  then show ?case by simp
next
  case (snoc b xs)
  show ?case
  proof (cases xs rule: rev_cases)
    case Nil
    then show ?thesis by simp
  next
    case (snoc us a)
    have ab: "0 < cross a b p" using snoc.prems(4) [of us a b] snoc by simp
    have lt: "cmp a b < 0" using snoc.prems(1) snoc by (simp add: sorted_wrt_append)
    have bp: "cmp b p < 0" using snoc.prems(3) by simp
    have ap: "cmp a p < 0" using lt bp by (rule cmp_less_trans)
    have "successively (\<lambda>a b. 0 < cross a b p) xs"
    proof (rule snoc.IH)
      show "sorted_wrt (\<lambda>a b. cmp a b < 0) xs"
        using snoc.prems(1) by (simp add: sorted_wrt_append)
      show "0 < cross a' b' c'" if "xs = us' @ [a', b', c'] @ vs" for us' a' b' c' vs
        using snoc.prems(2) [of us' a' b' c' "vs @ [b]"] that by simp
      show "cmp (last xs) p < 0" if "xs \<noteq> []"
        using ap snoc by simp
      show "0 < cross a' b' p" if "xs = us' @ [a', b']" for us' a' b'
      proof -
        from that snoc have e: "b' = a" "us = us' @ [a']" by simp_all
        have t: "0 < cross a' a b"
          using snoc.prems(2) [of us' a' a b "[]"] snoc e by simp
        have "cmp a' a < 0"
          using snoc.prems(1) snoc e by (simp add: sorted_wrt_append)
        from deeper_edge_turn [OF this lt ap t ab] e show ?thesis by simp
      qed
    qed
    with ab snoc show ?thesis by (simp add: successively_append_iff)
  qed
qed

lemma sorted_lt_le_last:
  assumes "sorted_wrt (\<lambda>a b. cmp a b < 0) ks" "a \<in> set ks"
  shows "cmp a (last ks) \<le> 0"
proof (cases ks rule: rev_cases)
  case Nil
  with assms show ?thesis by simp
next
  case (snoc us b)
  with assms show ?thesis by (auto simp: sorted_wrt_append)
qed

lemma sorted_lt_hd_le:
  assumes "sorted_wrt (\<lambda>a b. cmp a b < 0) ks" "a \<in> set ks"
  shows "cmp (hd ks) a \<le> 0"
  using assms by (cases ks) auto

lemma lowerVertex_triple:
  assumes "set st = {p. lowerVertex X p}" "sorted_wrt (\<lambda>a b. cmp a b < 0) st"
    "st = us @ [a, b, c] @ vs"
  shows "0 < cross a b c"
proof -
  have "lowerVertex X a" "lowerVertex X b" "lowerVertex X c"
    using assms(1,3) by auto
  moreover have "cmp a b < 0" "cmp b c < 0"
    using assms(2,3) by (simp_all add: sorted_wrt_append)
  ultimately have "cross a c b < 0"
    unfolding lowerVertex_def by blast
  then show ?thesis by (simp add: cross_swap [of a c b])
qed

lemma chainInv_push:
  assumes inv: "chainInv st X" and ge: "\<forall>z \<in> X. cmp z p \<le> 0"
  shows "chainInv (pop_while st p @ [p]) (insert p X)"
proof -
  let ?lt = "\<lambda>a b. cmp a b < 0"
  from inv have ne: "st \<noteq> []" and srt: "sorted_wrt ?lt st"
    and mn: "\<And>z. z \<in> X \<Longrightarrow> cmp (hd st) z \<le> 0"
    and mx: "\<And>z. z \<in> X \<Longrightarrow> cmp z (last st) \<le> 0"
    and hl: "cmp (hd st) (last st) < 0"
    and sup: "successively (\<lambda>a b. \<forall>z \<in> X. 0 \<le> cross a b z) st"
    and lv: "set st = {p. lowerVertex X p}"
    unfolding chainInv_def by blast+
  have sub: "set st \<subseteq> X" using lv unfolding lowerVertex_def by blast
  define kept where "kept = pop_while st p"
  obtain popped where p1: "st = kept @ popped" and p2: "kept \<noteq> []"
    and p3: "\<And>us a b. kept = us @ [a, b] \<Longrightarrow> 0 < cross a b p"
    and p4: "popped \<noteq> [] \<Longrightarrow> successively (\<lambda>a b. cross a b p \<le> 0) (last kept # popped)"
    using pop_while_spec_ex [of st p] ne unfolding kept_def by blast
  define q where "q = last kept"
  have hdk: "hd kept = hd st" using p1 p2 by (metis hd_append2)
  have srtk: "sorted_wrt ?lt kept" using srt p1 by (simp add: sorted_wrt_append)
  have subk: "set kept \<subseteq> X" using sub p1 by auto
  have qk: "q \<in> set kept" using p2 q_def by simp
  have lastX: "last st \<in> X" "hd st \<in> X" using ne sub by auto
  have hdp: "cmp (hd st) p < 0"
    using hl ge lastX(1) by (blast intro: cmp_less_le_trans)
  \<comment> \<open>the top of the kept stack is strictly before the new point\<close>
  have qp: "cmp q p < 0"
  proof (cases "popped = []")
    case True
    then have ks: "kept = st" using p1 by simp
    show ?thesis
    proof (cases kept rule: rev_cases)
      case Nil
      with p2 show ?thesis by simp
    next
      case (snoc us b)
      note outer = snoc
      show ?thesis
      proof (cases us rule: rev_cases)
        case Nil
        with outer ks have "st = [b]" by simp
        with hl show ?thesis by simp
      next
        case (snoc us' a)
        with outer have "0 < cross a b p" using p3 [of us' a b] by simp
        then have "b \<noteq> p" by auto
        moreover have "cmp b p \<le> 0" using ge subk outer by simp
        ultimately have "cmp b p < 0" by (intro cmp_le_neq)
        with outer show ?thesis by (simp add: q_def)
      qed
    qed
  next
    case False
    then have "hd popped \<in> set st" using p1 by simp
    then have "cmp (hd popped) p \<le> 0" using ge sub by blast
    moreover have "cmp q (hd popped) < 0"
      using srt p1 False qk by (simp add: sorted_wrt_append)
    ultimately show ?thesis by (rule cmp_less_le_trans [rotated])
  qed
  have keptp: "cmp a p < 0" if "a \<in> set kept" for a
    using sorted_lt_le_last [OF srtk that] qp unfolding q_def by (rule cmp_le_less_trans)
  \<comment> \<open>every edge of the kept stack has the new point strictly on its left\<close>
  have turns: "successively (\<lambda>a b. 0 < cross a b p) kept"
  proof (rule turns_to_p [OF srtk])
    show "0 < cross a b c" if "kept = us @ [a, b, c] @ vs" for us a b c vs
      using lowerVertex_triple [OF lv srt, of us a b c "vs @ popped"] that p1 by simp
    show "cmp (last kept) p < 0" if "kept \<noteq> []" using qp q_def by simp
    show "0 < cross a b p" if "kept = us @ [a, b]" for us a b using p3 that by blast
  qed
  have supk: "successively (\<lambda>a b. \<forall>z \<in> X. 0 \<le> cross a b z) kept"
    using sup p1 by (simp add: successively_append_iff)
  have edges: "successively (\<lambda>a b. cmp a b < 0 \<and> (\<forall>z \<in> X. 0 \<le> cross a b z) \<and> 0 < cross a b p) kept"
    using successively_if_sorted_wrt [OF srtk] supk turns by (simp add: successively_conj)
  \<comment> \<open>a kept point stays below every segment that ends in the new point\<close>
  have survive: "cross a p k < 0" if "k \<in> set kept" "a \<in> X" "cmp a k < 0" for a k
  proof -
    have "k \<noteq> hd kept"
      using mn [OF that(2)] that(3) hdk by (auto dest: cmp_less_asym)
    with that(1) have "k \<in> set (tl kept)" by (cases kept) auto
    from successively_pred [OF edges this] obtain r where
      r: "cmp r k < 0" "\<forall>z \<in> X. 0 \<le> cross r k z" "0 < cross r k p" by blast
    from survivor_below [OF r(1) keptp [OF that(1)] that(3) r(3)] r(2) that(2)
    show ?thesis by blast
  qed
  \<comment> \<open>the new edge has every point on its left\<close>
  have newedge: "0 \<le> cross q p z" if "z \<in> X" for z
  proof -
    consider "z = q" | "cmp z q < 0" | "cmp q z < 0"
      using cmp_total [of z q] cmp_le_neq [of z q] cmp_le_neq [of q z] by blast
    then show ?thesis
    proof cases
      case 1
      then show ?thesis by simp
    next
      case 2
      from survive [OF qk that 2] have "cross z p q < 0" .
      then show ?thesis using cross_cycle [of q p z] cross_swap [of z q p] by simp
    next
      case 3
      have pne: "popped \<noteq> []"
      proof
        assume "popped = []"
        then have "q = last st" using p1 q_def by simp
        with mx [OF that] 3 show False by (auto dest: cmp_less_asym)
      qed
      define t where "t = hd popped"
      have st_split: "st = butlast kept @ [q, t] @ tl popped"
        using p1 p2 pne by (simp add: q_def t_def)
      have "cmp q t < 0" using srt st_split by (simp add: sorted_wrt_append)
      moreover have "0 \<le> cross q t z"
        using sup that unfolding st_split by (simp add: successively_append_iff)
      moreover have "cross q t p \<le> 0"
        using p4 [OF pne] pne by (cases popped) (simp_all add: q_def t_def)
      moreover have "cmp q p \<le> 0" using qp by simp
      moreover have "cmp q z \<le> 0" using 3 by simp
      ultimately show ?thesis by (intro new_edge_support [of q t z p])
    qed
  qed
  \<comment> \<open>a popped point other than the new one is not a vertex any more\<close>
  have popped_out: "\<not> lowerVertex (insert p X) t" if "t \<in> set popped" "t \<noteq> p" for t
  proof
    assume lvt: "lowerVertex (insert p X) t"
    have pne: "popped \<noteq> []" using that by auto
    have "t \<in> set (tl (q # popped))" using that by simp
    moreover have "successively (\<lambda>a b. cmp a b < 0 \<and> cross a b p \<le> 0) (q # popped)"
    proof -
      have "st = butlast kept @ (q # popped)" using p1 p2 by (simp add: q_def)
      then have "sorted_wrt ?lt (q # popped)" using srt by (metis sorted_wrt_append)
      then have "successively ?lt (q # popped)" by (rule successively_if_sorted_wrt)
      with p4 [OF pne] show ?thesis by (simp add: successively_conj q_def)
    qed
    ultimately obtain r where r: "r \<in> set (q # popped)" "cmp r t < 0" "cross r t p \<le> 0"
      using successively_pred by fastforce
    have "r \<in> X" using r(1) qk subk sub p1 by auto
    moreover have "cmp t p < 0"
      using ge sub p1 that by (intro cmp_le_neq) auto
    ultimately have "cross r p t < 0"
      using lvt r(2) unfolding lowerVertex_def by blast
    with r(3) show False by (simp add: cross_swap [of r p t])
  qed
  show ?thesis
    unfolding chainInv_def kept_def [symmetric]
  proof (intro conjI)
    show "kept @ [p] \<noteq> []" by simp
    show "sorted_wrt ?lt (kept @ [p])"
      using srtk keptp by (simp add: sorted_wrt_append)
    show "\<forall>z \<in> insert p X. cmp (hd (kept @ [p])) z \<le> 0 \<and> cmp z (last (kept @ [p])) \<le> 0"
      using p2 hdk mn ge hdp by auto
    show "cmp (hd (kept @ [p])) (last (kept @ [p])) < 0"
      using p2 hdk hdp by simp
    show "successively (\<lambda>a b. \<forall>z \<in> insert p X. 0 \<le> cross a b z) (kept @ [p])"
    proof -
      have "successively (\<lambda>a b. \<forall>z \<in> insert p X. 0 \<le> cross a b z) kept"
        using edges by (rule successively_mono) auto
      moreover have "\<forall>z \<in> insert p X. 0 \<le> cross q p z"
        using newedge by simp
      ultimately show ?thesis
        using p2 by (simp add: successively_append_iff q_def)
    qed
    show "set (kept @ [p]) = {p'. lowerVertex (insert p X) p'}"
    proof (intro set_eqI iffI)
      fix k assume "k \<in> set (kept @ [p])"
      then consider "k = p" | "k \<in> set kept" "k \<noteq> p" by auto
      then have "lowerVertex (insert p X) k"
      proof cases
        case 1
        have "\<not> cmp p b < 0" if "b \<in> insert p X" for b
          using that ge by (auto dest: cmp_less_asym)
        with 1 show ?thesis unfolding lowerVertex_def by blast
      next
        case 2
        then have kX: "lowerVertex X k" using lv p1 by auto
        have "cross a b k < 0"
          if "a \<in> insert p X" "b \<in> insert p X" "cmp a k < 0" "cmp k b < 0" for a b
        proof -
          have "a \<noteq> p" using that(3) keptp [OF 2(1)] by (auto dest: cmp_less_asym)
          then have aX: "a \<in> X" using that(1) by simp
          show ?thesis
          proof (cases "b = p")
            case True
            with survive [OF 2(1) aX that(3)] show ?thesis by simp
          next
            case False
            then have "b \<in> X" using that(2) by simp
            with kX aX that(3,4) show ?thesis unfolding lowerVertex_def by blast
          qed
        qed
        moreover have "k \<in> insert p X" using 2 subk by auto
        ultimately show ?thesis unfolding lowerVertex_def by blast
      qed
      then show "k \<in> {p'. lowerVertex (insert p X) p'}" by simp
    next
      fix k assume "k \<in> {p'. lowerVertex (insert p X) p'}"
      then have k: "lowerVertex (insert p X) k" by simp
      show "k \<in> set (kept @ [p])"
      proof (cases "k = p")
        case True
        then show ?thesis by simp
      next
        case False
        then have "lowerVertex X k" using k unfolding lowerVertex_def by blast
        then have "k \<in> set kept \<or> k \<in> set popped" using lv p1 by auto
        with popped_out [OF _ False] k show ?thesis by auto
      qed
    qed
  qed
qed

lemma chainInv_pair:
  assumes "cmp s p < 0"
  shows "chainInv [s, p] {s, p}"
proof -
  have "\<not> cmp p s < 0" using assms by (auto dest: cmp_less_asym)
  then have "lowerVertex {s, p} s" "lowerVertex {s, p} p"
    unfolding lowerVertex_def by auto
  moreover have "\<And>k. lowerVertex {s, p} k \<Longrightarrow> k \<in> {s, p}"
    unfolding lowerVertex_def by blast
  ultimately have "set [s, p] = {k. lowerVertex {s, p} k}" by auto
  with assms show ?thesis
    unfolding chainInv_def by simp
qed

lemma chainState_push:
  assumes "chainState st X" "\<forall>z \<in> X. cmp z p \<le> 0"
  shows "chainState (pop_while st p @ [p]) (insert p X)"
proof -
  consider s where "X = {s}" "st = [s] \<or> st = [s, s]" | "chainInv st X"
    using assms(1) unfolding chainState_def by blast
  then show ?thesis
  proof cases
    case 1
    from 1(2) have pw: "pop_while st p = [s]" by auto
    show ?thesis
    proof (cases "p = s")
      case True
      with 1(1) pw show ?thesis unfolding chainState_def by auto
    next
      case False
      then have "cmp s p < 0" using assms(2) 1(1) by (intro cmp_le_neq) auto
      from chainInv_pair [OF this] have "chainInv (pop_while st p @ [p]) (insert p X)"
        using pw 1(1) by (simp add: insert_commute)
      then show ?thesis unfolding chainState_def by simp
    qed
  next
    case 2
    from chainInv_push [OF 2 assms(2)] show ?thesis unfolding chainState_def by simp
  qed
qed

lemma chainState_build:
  assumes "chainState st X" "sorted_wrt (\<lambda>a b. cmp a b \<le> 0) ps" "\<forall>p \<in> set ps. \<forall>z \<in> X. cmp z p \<le> 0"
  shows "chainState (build_chain st ps) (X \<union> set ps)"
  using assms
proof (induction ps arbitrary: st X)
  case Nil
  then show ?case by simp
next
  case (Cons p ps)
  have "chainState (pop_while st p @ [p]) (insert p X)"
    using Cons.prems(1,3) by (intro chainState_push) simp_all
  moreover have "sorted_wrt (\<lambda>a b. cmp a b \<le> 0) ps" using Cons.prems(2) by simp
  moreover have "\<forall>p' \<in> set ps. \<forall>z \<in> insert p X. cmp z p' \<le> 0"
    using Cons.prems(2,3) by auto
  ultimately have "chainState (build_chain (pop_while st p @ [p]) ps) (insert p X \<union> set ps)"
    by (rule Cons.IH)
  then show ?case by simp
qed

lemma chainState_sorted:
  assumes "sorted_wrt (\<lambda>a b. cmp a b \<le> 0) ps" "ps \<noteq> []"
  shows "chainState (build_chain [] ps) (set ps)"
proof -
  obtain s rest where ps: "ps = s # rest" using assms(2) by (cases ps) auto
  have "chainState [s] {s}" unfolding chainState_def by blast
  moreover have "sorted_wrt (\<lambda>a b. cmp a b \<le> 0) rest" "\<forall>p \<in> set rest. \<forall>z \<in> {s}. cmp z p \<le> 0"
    using assms(1) ps by auto
  ultimately have "chainState (build_chain [s] rest) ({s} \<union> set rest)"
    by (rule chainState_build)
  then show ?thesis by (simp add: ps)
qed

lemma chainInv_sorted:
  assumes "sorted_wrt (\<lambda>a b. cmp a b \<le> 0) ps" "a \<in> set ps" "b \<in> set ps" "a \<noteq> b"
  shows "chainInv (build_chain [] ps) (set ps)"
proof -
  have "ps \<noteq> []" using assms(2) by auto
  from chainState_sorted [OF assms(1) this] assms(2,3,4)
  show ?thesis unfolding chainState_def by auto
qed

section \<open>The upper chain and the hull of a hull\<close>

lemma reflectPoint_twice [simp]: "reflectPoint (reflectPoint p) = p"
  by (simp add: reflectPoint_def)

lemma reflectPoint_eq_iff [simp]: "reflectPoint a = reflectPoint b \<longleftrightarrow> a = b"
  by (metis reflectPoint_twice)

lemma cross_reflectPoint [simp]:
  "cross (reflectPoint a) (reflectPoint b) (reflectPoint c) = cross a b c"
  by (simp add: cross_def reflectPoint_def algebra_simps)

lemma cmp_reflectPoint [simp]: "cmp (reflectPoint a) (reflectPoint b) = cmp b a"
  by (simp add: cmp_def reflectPoint_def)

lemma map_reflectPoint_twice [simp]: "map reflectPoint (map reflectPoint ps) = ps"
  by (induction ps) simp_all

lemma pop_while_reflect:
  "pop_while (map reflectPoint st) (reflectPoint p) = map reflectPoint (pop_while st p)"
proof (induction st rule: rev_induct)
  case Nil
  then show ?case by simp
next
  case (snoc b xs)
  show ?case
  proof (cases xs rule: rev_cases)
    case Nil
    then show ?thesis by simp
  next
    case (snoc us a)
    have "pop_while (map reflectPoint us @ [reflectPoint a, reflectPoint b]) (reflectPoint p)
        = (if cross a b p \<le> 0 then pop_while (map reflectPoint us @ [reflectPoint a]) (reflectPoint p)
           else map reflectPoint us @ [reflectPoint a, reflectPoint b])"
      by (simp add: pop_while_snoc2)
    moreover have "pop_while (us @ [a, b]) p
        = (if cross a b p \<le> 0 then pop_while (us @ [a]) p else us @ [a, b])"
      by (rule pop_while_snoc2)
    ultimately show ?thesis using snoc.IH snoc by simp
  qed
qed

lemma build_chain_reflect:
  "build_chain (map reflectPoint st) (map reflectPoint ps) = map reflectPoint (build_chain st ps)"
proof (induction ps arbitrary: st)
  case Nil
  then show ?case by simp
next
  case (Cons p ps)
  have "build_chain (map reflectPoint st) (map reflectPoint (p # ps))
      = build_chain (map reflectPoint (pop_while st p @ [p])) (map reflectPoint ps)"
    by (simp add: pop_while_reflect)
  also have "\<dots> = map reflectPoint (build_chain (pop_while st p @ [p]) ps)"
    by (rule Cons.IH)
  finally show ?case by simp
qed

lemma upper_chain_reflect:
  "build_chain [] (rev ps) = map reflectPoint (build_chain [] (map reflectPoint (rev ps)))"
  using build_chain_reflect [of "[]" "map reflectPoint (rev ps)"]
  by (simp only: map_reflectPoint_twice list.map)

lemma sorted_reflect_rev:
  assumes "sorted_wrt (\<lambda>a b. cmp a b \<le> 0) ps"
  shows "sorted_wrt (\<lambda>a b. cmp a b \<le> 0) (map reflectPoint (rev ps))"
  using assms by (simp add: sorted_wrt_map sorted_wrt_rev)

lemma mem_reflect_image: "p \<in> reflectPoint ` A \<longleftrightarrow> reflectPoint p \<in> A"
  by (metis image_iff reflectPoint_twice)

lemma lowerVertex_antimono:
  "lowerVertex X p \<Longrightarrow> Y \<subseteq> X \<Longrightarrow> p \<in> Y \<Longrightarrow> lowerVertex Y p"
  unfolding lowerVertex_def by blast

lemma upperVertex_antimono:
  "upperVertex X p \<Longrightarrow> Y \<subseteq> X \<Longrightarrow> p \<in> Y \<Longrightarrow> upperVertex Y p"
  unfolding upperVertex_def by (erule lowerVertex_antimono) auto

lemma hullVertices_subset: "hullVertices X \<subseteq> X"
  unfolding hullVertices_def upperVertex_def lowerVertex_def by (auto simp: mem_reflect_image)

lemma hullVertices_idem: "hullVertices (hullVertices X) = hullVertices X"
proof
  show "hullVertices (hullVertices X) \<subseteq> hullVertices X" by (rule hullVertices_subset)
  show "hullVertices X \<subseteq> hullVertices (hullVertices X)"
  proof
    fix p assume p: "p \<in> hullVertices X"
    then consider "lowerVertex X p" | "upperVertex X p" unfolding hullVertices_def by blast
    then show "p \<in> hullVertices (hullVertices X)"
    proof cases
      case 1
      from lowerVertex_antimono [OF 1 hullVertices_subset p]
      show ?thesis unfolding hullVertices_def [of "hullVertices X"] by simp
    next
      case 2
      from upperVertex_antimono [OF 2 hullVertices_subset p]
      show ?thesis unfolding hullVertices_def [of "hullVertices X"] by simp
    qed
  qed
qed

lemma set_butlast_distinct:
  assumes "distinct xs" "xs \<noteq> []"
  shows "set (butlast xs) = set xs - {last xs}"
proof -
  from assms(2) have "xs = butlast xs @ [last xs]" by simp
  then have "distinct (butlast xs @ [last xs])" "set xs = set (butlast xs @ [last xs])"
    using assms(1) by simp_all
  then show ?thesis by auto
qed

lemma sorted_lt_distinct: "sorted_wrt (\<lambda>a b. cmp a b < 0) xs \<Longrightarrow> distinct xs"
  by (induction xs) auto

lemma cmp_reflect_right: "cmp a (reflectPoint b) = cmp b (reflectPoint a)"
  by (simp add: cmp_def reflectPoint_def)

lemma cmp_reflect_left: "cmp (reflectPoint a) b = cmp (reflectPoint b) a"
  by (simp add: cmp_def reflectPoint_def)

lemma set_getConvexHull:
  assumes "3 \<le> length points" "a \<in> set points" "b \<in> set points" "a \<noteq> b"
  shows "set (getConvexHull points) = hullVertices (set points)"
    and "\<exists>a' \<in> hullVertices (set points). \<exists>b' \<in> hullVertices (set points). a' \<noteq> b'"
proof -
  let ?S = "sort_points points"
  let ?X = "set points"
  let ?R = "map reflectPoint (rev ?S)"
  define L where "L = build_chain [] ?S"
  define L' where "L' = build_chain [] ?R"
  define U where "U = build_chain [] (rev ?S)"
  have U: "U = map reflectPoint L'"
    unfolding U_def L'_def by (rule upper_chain_reflect)
  have invL: "chainInv L ?X"
    using chainInv_sorted [OF sorted_sort_points, of a points b] assms(2,3,4)
    unfolding L_def by (simp add: set_sort_points)
  have "chainInv L' (set ?R)"
    unfolding L'_def
  proof (rule chainInv_sorted [OF sorted_reflect_rev [OF sorted_sort_points]])
    show "reflectPoint a \<in> set ?R" "reflectPoint b \<in> set ?R"
      using assms(2,3) by (simp_all add: set_sort_points)
    show "reflectPoint a \<noteq> reflectPoint b" using assms(4) by simp
  qed
  then have invL': "chainInv L' (reflectPoint ` ?X)"
    by (simp add: set_sort_points)
  from invL have L: "L \<noteq> []" "sorted_wrt (\<lambda>a b. cmp a b < 0) L"
    "\<And>z. z \<in> ?X \<Longrightarrow> cmp (hd L) z \<le> 0" "\<And>z. z \<in> ?X \<Longrightarrow> cmp z (last L) \<le> 0"
    "cmp (hd L) (last L) < 0" "set L = {p. lowerVertex ?X p}"
    unfolding chainInv_def by blast+
  from invL' have L': "L' \<noteq> []" "sorted_wrt (\<lambda>a b. cmp a b < 0) L'"
    "\<And>z. z \<in> reflectPoint ` ?X \<Longrightarrow> cmp (hd L') z \<le> 0"
    "\<And>z. z \<in> reflectPoint ` ?X \<Longrightarrow> cmp z (last L') \<le> 0"
    "set L' = {p. lowerVertex (reflectPoint ` ?X) p}"
    unfolding chainInv_def by blast+
  have setU: "set U = {p. upperVertex ?X p}"
    unfolding U upperVertex_def using L'(5) by (auto simp: mem_reflect_image)
  have LX: "set L \<subseteq> ?X" using L(6) unfolding lowerVertex_def by blast
  have L'X: "set L' \<subseteq> reflectPoint ` ?X" using L'(5) unfolding lowerVertex_def by blast
  have Une: "U \<noteq> []" using U L'(1) by simp
  have dL: "distinct L" using L(2) by (rule sorted_lt_distinct)
  have dU: "distinct U"
    unfolding U using sorted_lt_distinct [OF L'(2)] by (simp add: distinct_map inj_on_def)
  have endsL: "hd L \<in> ?X" "last L \<in> ?X"
    using L(1) LX hd_in_set [of L] last_in_set [of L] by blast+
  have "hd L' \<in> reflectPoint ` ?X" "last L' \<in> reflectPoint ` ?X"
    using L'(1) L'X hd_in_set [of L'] last_in_set [of L'] by blast+
  then have endsU: "hd U \<in> ?X" "last U \<in> ?X"
    using U L'(1) by (simp_all add: hd_map last_map mem_reflect_image)
  \<comment> \<open>the lower chain ends where the upper chain starts, and the other way round\<close>
  have lastL: "last L = hd U"
  proof (rule cmp_antisym)
    show "cmp (hd U) (last L) \<le> 0" using endsU(1) by (rule L(4))
    have "reflectPoint (last L) \<in> reflectPoint ` ?X" using endsL(2) by (rule imageI)
    from L'(3) [OF this] show "cmp (last L) (hd U) \<le> 0"
      using U L'(1) by (simp add: hd_map cmp_reflect_right [of "hd L'"])
  qed
  have lastU: "last U = hd L"
  proof (rule cmp_antisym)
    show "cmp (hd L) (last U) \<le> 0" using endsU(2) by (rule L(3))
    have "reflectPoint (hd L) \<in> reflectPoint ` ?X" using endsL(1) by (rule imageI)
    from L'(4) [OF this] show "cmp (last U) (hd L) \<le> 0"
      using U L'(1) by (simp add: last_map cmp_reflect_left [of "hd L"])
  qed
  have ne: "hd L \<noteq> last L" using L(5) by auto
  have "set (butlast L @ butlast U) = (set L - {last L}) \<union> (set U - {last U})"
    using set_butlast_distinct [OF dL L(1)] set_butlast_distinct [OF dU Une] by simp
  also have "\<dots> = set L \<union> set U"
    using lastL lastU ne L(1) Une by (auto simp: hd_in_set)
  finally have "set (butlast L @ butlast U) = hullVertices ?X"
    unfolding hullVertices_def L(6) setU .
  then show "set (getConvexHull points) = hullVertices ?X"
    using assms(1) by (simp add: getConvexHull_def Let_def L_def U_def)
  have "hd L \<in> hullVertices ?X" "last L \<in> hullVertices ?X"
    unfolding hullVertices_def using L(1,6) by (auto simp: hd_in_set)
  with ne show "\<exists>a' \<in> hullVertices ?X. \<exists>b' \<in> hullVertices ?X. a' \<noteq> b'" by blast
qed

text \<open>
  Claim C8. For every list of points with coordinates in the range where the arithmetic
  of the source is exact, the hull is again a list of such points, and the hull of the
  hull has the same set of vertices as the hull.
\<close>

theorem getConvexHull_idempotent:
  assumes "list_all inExactRange points"
  shows "list_all inExactRange (getConvexHull points)
     \<and> set (getConvexHull (getConvexHull points)) = set (getConvexHull points)"
proof (rule conjI)
  show "list_all inExactRange (getConvexHull points)"
    using assms by (rule getConvexHull_inExactRange)
next
  show "set (getConvexHull (getConvexHull points)) = set (getConvexHull points)"
  proof (cases "length points \<le> 2")
    case True
    then show ?thesis by (simp add: getConvexHull_def)
  next
    case False
    then have len: "3 \<le> length points" by simp
    show ?thesis
    proof (cases "\<exists>a \<in> set points. \<exists>b \<in> set points. a \<noteq> b")
      case False
      then have "\<forall>a \<in> set points. \<forall>b \<in> set points. \<forall>c \<in> set points. cross a b c = 0"
        by auto
      from getConvexHull_collinear_ends [OF len this]
      have "length (getConvexHull points) \<le> 2" by simp
      then show ?thesis by (simp add: getConvexHull_def [of "getConvexHull points"])
    next
      case True
      then obtain a b where ab: "a \<in> set points" "b \<in> set points" "a \<noteq> b" by blast
      note H = set_getConvexHull [OF len ab]
      show ?thesis
      proof (cases "length (getConvexHull points) \<le> 2")
        case True
        then show ?thesis by (simp add: getConvexHull_def [of "getConvexHull points"])
      next
        case False
        then have len': "3 \<le> length (getConvexHull points)" by simp
        from H(2) obtain a' b' where "a' \<in> set (getConvexHull points)"
          "b' \<in> set (getConvexHull points)" "a' \<noteq> b'"
          unfolding H(1) by blast
        from set_getConvexHull(1) [OF len' this]
        show ?thesis unfolding H(1) hullVertices_idem .
      qed
    qed
  qed
qed

text \<open>
  A rectangle with two points inside and one corner given twice: the hull is the four
  corners, and the hull of these four has the same vertices.
\<close>

theorem getConvexHull_idempotent_witness:
  "list_all inExactRange [\<lparr>x = 0, y = 0\<rparr>, \<lparr>x = 4, y = 0\<rparr>, \<lparr>x = 4, y = 3\<rparr>, \<lparr>x = 0, y = 3\<rparr>, \<lparr>x = 2, y = 1\<rparr>, \<lparr>x = 1, y = 2\<rparr>, \<lparr>x = 4, y = 0\<rparr>]
   \<and> getConvexHull [\<lparr>x = 0, y = 0\<rparr>, \<lparr>x = 4, y = 0\<rparr>, \<lparr>x = 4, y = 3\<rparr>, \<lparr>x = 0, y = 3\<rparr>, \<lparr>x = 2, y = 1\<rparr>, \<lparr>x = 1, y = 2\<rparr>, \<lparr>x = 4, y = 0\<rparr>]
       = [\<lparr>x = 0, y = 0\<rparr>, \<lparr>x = 4, y = 0\<rparr>, \<lparr>x = 4, y = 3\<rparr>, \<lparr>x = 0, y = 3\<rparr>]
   \<and> list_all inExactRange [\<lparr>x = 0, y = 0\<rparr>, \<lparr>x = 4, y = 0\<rparr>, \<lparr>x = 4, y = 3\<rparr>, \<lparr>x = 0, y = 3\<rparr>]
   \<and> set (getConvexHull [\<lparr>x = 0, y = 0\<rparr>, \<lparr>x = 4, y = 0\<rparr>, \<lparr>x = 4, y = 3\<rparr>, \<lparr>x = 0, y = 3\<rparr>])
       = set [\<lparr>x = 0, y = 0\<rparr>, \<lparr>x = 4, y = 0\<rparr>, \<lparr>x = 4, y = 3\<rparr>, \<lparr>x = 0, y = 3\<rparr>]"
proof -
  have rng: "list_all inExactRange [\<lparr>x = 0, y = 0\<rparr>, \<lparr>x = 4, y = 0\<rparr>, \<lparr>x = 4, y = 3\<rparr>, \<lparr>x = 0, y = 3\<rparr>, \<lparr>x = 2, y = 1\<rparr>, \<lparr>x = 1, y = 2\<rparr>, \<lparr>x = 4, y = 0\<rparr>]"
    by (simp add: inExactRange_def)
  have e: "getConvexHull [\<lparr>x = 0, y = 0\<rparr>, \<lparr>x = 4, y = 0\<rparr>, \<lparr>x = 4, y = 3\<rparr>, \<lparr>x = 0, y = 3\<rparr>, \<lparr>x = 2, y = 1\<rparr>, \<lparr>x = 1, y = 2\<rparr>, \<lparr>x = 4, y = 0\<rparr>]
       = [\<lparr>x = 0, y = 0\<rparr>, \<lparr>x = 4, y = 0\<rparr>, \<lparr>x = 4, y = 3\<rparr>, \<lparr>x = 0, y = 3\<rparr>]"
    by (simp add: getConvexHull_def sort_points_def cmp_def cross_def)
  from getConvexHull_idempotent [OF rng] rng e show ?thesis
    by simp
qed

end
